theory Spec2Isabelle
  imports Complex_Main "HOL-Library.List_Lexorder" "HOL-Library.Product_Lexorder"
    "HOL-Library.Word"
begin

section \<open>Data model\<close>

text \<open>
  A Python \<open>str\<close> is a sequence of Unicode code points, so it is modelled as a list of
  natural numbers (\<open>0x20\<close> is the space, \<open>0xA0\<close> the non-breaking space). Strings are
  compared as Python compares them: lexicographically by code point.

  A number of pandas is a 64-bit integer or a double. An integer of the dtype \<open>int64\<close>
  is a 64-bit word read in two's complement (\<open>sint\<close>), and sums of such integers wrap
  around as the word addition does. An integer cell of a worksheet is taken to fit into
  64 bits; larger Python integers are outside the model. Doubles are modelled as exact
  reals: the rounding of IEEE doubles and the special values \<open>inf\<close> and \<open>-inf\<close> are
  outside the model. A missing value (\<open>NaN\<close>, \<open>NaT\<close>, \<open>None\<close>) is \<open>None\<close> of an option
  type, or the constructor \<open>CNull\<close>/\<open>VNull\<close>.
\<close>

type_synonym ustring = "nat list"

type_synonym int64 = "64 word"

text \<open>A raw cell as \<open>ws.get_all_records()\<close> delivers it: text, or a number where the text
  of the cell reads as one (\<open>CNull\<close> is the float \<open>nan\<close>).\<close>

datatype cell = CNull | CStr ustring | CInt int64 | CFlt real

text \<open>A value of a numeric column: an integer where the column has the dtype \<open>int64\<close>,
  a double where it has the dtype \<open>float64\<close>; \<open>num_real\<close> is the number it stands for.\<close>

datatype num = NInt int64 | NFlt real

fun num_real :: "num \<Rightarrow> real" where
  "num_real (NInt i) = of_int (sint i)"
| "num_real (NFlt x) = x"

text \<open>A value of a column of the unified dataset \<open>df_all\<close>. A timestamp is its number of
  nanoseconds since the epoch, a calendar date its number of days since the epoch.\<close>

datatype val = VNull | VStr ustring | VNum real | VTime int | VDate int

text \<open>
  \<open>groupby\<close> and \<open>sort_values\<close> order values. The order below is the one of Python on
  two values of the same kind (strings by code point, numbers, timestamps and dates by
  value); the kinds themselves are ranked only to make the order total, and a key column
  of \<open>df_all\<close> holds values of one kind.
\<close>

fun val_code :: "val \<Rightarrow> nat \<times> ustring \<times> real \<times> int" where
  "val_code VNull = (0, [], 0, 0)"
| "val_code (VStr s) = (1, s, 0, 0)"
| "val_code (VNum x) = (2, [], x, 0)"
| "val_code (VTime t) = (3, [], 0, t)"
| "val_code (VDate d) = (4, [], 0, d)"

instantiation val :: linorder
begin

definition less_eq_val :: "val \<Rightarrow> val \<Rightarrow> bool" where
  "less_eq_val a b \<longleftrightarrow> val_code a \<le> val_code b"

definition less_val :: "val \<Rightarrow> val \<Rightarrow> bool" where
  "less_val a b \<longleftrightarrow> val_code a < val_code b"

instance
proof
  fix x y z :: val
  have inj: "val_code a = val_code b \<Longrightarrow> a = b" for a b
    by (cases a; cases b) simp_all
  show "(x < y) = (x \<le> y \<and> \<not> y \<le> x)"
    unfolding less_eq_val_def less_val_def by (rule less_le_not_le)
  show "x \<le> x"
    unfolding less_eq_val_def by simp
  show "x \<le> y \<Longrightarrow> y \<le> z \<Longrightarrow> x \<le> z"
    unfolding less_eq_val_def by (rule order_trans)
  show "x \<le> y \<Longrightarrow> y \<le> x \<Longrightarrow> x = y"
    unfolding less_eq_val_def using inj by (blast intro: antisym)
  show "x \<le> y \<or> y \<le> x"
    unfolding less_eq_val_def by (rule linear)
qed

end

text \<open>One row of \<open>df_all\<close>, with the columns the script reads or creates.\<close>

record outage =
  feeder_name :: ustring
  month :: ustring
  interruption_time :: "int option"
  restoration_time :: "int option"
  duration_hr :: "real option"
  date :: "int option"
  week :: "ustring option"
  customer_no :: "num option"
  fault_category :: cell

datatype col =
  FeederName | Month | InterruptionTime | RestorationTime | DurationHr
  | Date | Week | CustomerNo | FaultCategory

fun val_of_cell :: "cell \<Rightarrow> val" where
  "val_of_cell CNull = VNull"
| "val_of_cell (CStr s) = VStr s"
| "val_of_cell (CInt i) = VNum (of_int (sint i))"
| "val_of_cell (CFlt x) = VNum x"

definition opt_val :: "('a \<Rightarrow> val) \<Rightarrow> 'a option \<Rightarrow> val" where
  "opt_val f x = (case x of None \<Rightarrow> VNull | Some v \<Rightarrow> f v)"

text \<open>\<open>col_val c r\<close> is the value of row \<open>r\<close> in column \<open>c\<close>.\<close>

fun col_val :: "col \<Rightarrow> outage \<Rightarrow> val" where
  "col_val FeederName r = VStr (feeder_name r)"
| "col_val Month r = VStr (month r)"
| "col_val InterruptionTime r = opt_val VTime (interruption_time r)"
| "col_val RestorationTime r = opt_val VTime (restoration_time r)"
| "col_val DurationHr r = opt_val VNum (duration_hr r)"
| "col_val Date r = opt_val VDate (date r)"
| "col_val Week r = opt_val VStr (week r)"
| "col_val CustomerNo r = opt_val (\<lambda>c. VNum (num_real c)) (customer_no r)"
| "col_val FaultCategory r = val_of_cell (fault_category r)"


section \<open>Metrics Aggregator: \<open>compute_metrics\<close>\<close>

text \<open>A row of a metrics table: the grouping columns with their values (\<open>reset_index\<close>
  turns the group key into columns), then the three indices.\<close>

record metrics_row =
  mkey :: "(col \<times> val) list"
  SAIDI :: real
  SAIFI :: real
  CAIDI :: real

text \<open>\<open>Series.sum()\<close> skips missing values; the product of two series is missing where
  either factor is.\<close>

definition series_sum :: "real option list \<Rightarrow> real" where
  "series_sum xs = sum_list (map (\<lambda>x. case x of None \<Rightarrow> 0 | Some v \<Rightarrow> v) xs)"

definition series_mul :: "real option \<Rightarrow> real option \<Rightarrow> real option" where
  "series_mul a b =
     (case a of None \<Rightarrow> None | Some x \<Rightarrow> (case b of None \<Rightarrow> None | Some y \<Rightarrow> Some (x * y)))"

text \<open>
  The dtype of the column \<open>Customer No\<close> of a table: \<open>int64\<close> when every row holds an
  integer, \<open>float64\<close> otherwise. A missing value or a double in the column makes it
  \<open>float64\<close>, and the integers in it are doubles then: \<open>pd.to_numeric\<close> and \<open>pd.concat\<close>
  build no numeric column of another kind.
\<close>

definition is_int64 :: "num option \<Rightarrow> bool" where
  "is_int64 x = (case x of Some (NInt i) \<Rightarrow> True | _ \<Rightarrow> False)"

definition int64_column :: "outage list \<Rightarrow> bool" where
  "int64_column df = list_all (\<lambda>r. is_int64 (customer_no r)) df"

definition int64_of :: "num option \<Rightarrow> int64" where
  "int64_of x = (case x of Some (NInt i) \<Rightarrow> i | _ \<Rightarrow> 0)"

text \<open>
  \<open>g["Customer No"].sum()\<close> for the rows \<open>g\<close> of a group, as the number it is: in an
  \<open>int64\<close> column the 64-bit sum, which wraps around, and in a \<open>float64\<close> column the sum of
  the doubles. The first argument says whether the column of the whole table is \<open>int64\<close>.
\<close>

definition customer_sum :: "bool \<Rightarrow> outage list \<Rightarrow> real" where
  "customer_sum int64 g =
     (if int64 then of_int (sint (sum_list (map (\<lambda>r. int64_of (customer_no r)) g)))
      else series_sum (map (\<lambda>r. map_option num_real (customer_no r)) g))"

text \<open>\<open>(g["Duration (hr)"] * g["Customer No"]).sum()\<close>: the product of a double and an
  integer is a double, so this sum does not wrap.\<close>

definition weighted_sum :: "outage list \<Rightarrow> real" where
  "weighted_sum g =
     series_sum (map (\<lambda>r. series_mul (duration_hr r) (map_option num_real (customer_no r))) g)"

text \<open>The \<open>lambda g\<close> of \<open>compute_metrics\<close>, with its three conditional expressions as
  they are written.\<close>

definition group_metrics :: "bool \<Rightarrow> (col \<times> val) list \<Rightarrow> outage list \<Rightarrow> metrics_row" where
  "group_metrics int64 k g =
     \<lparr> mkey = k,
       SAIDI = (if customer_sum int64 g > 0 then weighted_sum g / customer_sum int64 g else 0),
       SAIFI = (if customer_sum int64 g > 0 then customer_sum int64 g / customer_sum int64 g
                else 0),
       CAIDI = (if customer_sum int64 g > 0
                then (weighted_sum g / customer_sum int64 g)
                     / (customer_sum int64 g / customer_sum int64 g)
                else 0) \<rparr>"

definition group_key :: "col list \<Rightarrow> outage \<Rightarrow> val list" where
  "group_key gcols r = map (\<lambda>c. col_val c r) gcols"

text \<open>\<open>df.groupby(group_cols)\<close>: rows with a missing value in a grouping column are left
  out (\<open>dropna=True\<close>), the groups come in ascending order of their keys (\<open>sort=True\<close>),
  and each group keeps its rows in the order of \<open>df\<close>.\<close>

definition groupby :: "col list \<Rightarrow> outage list \<Rightarrow> (val list \<times> outage list) list" where
  "groupby gcols df =
     (let kept = filter (\<lambda>r. VNull \<notin> set (group_key gcols r)) df
      in map (\<lambda>k. (k, filter (\<lambda>r. group_key gcols r = k) kept))
             (sort (remdups (map (group_key gcols) kept))))"

definition compute_metrics :: "outage list \<Rightarrow> col list \<Rightarrow> metrics_row list" where
  "compute_metrics df group_cols =
     map (\<lambda>(k, g). group_metrics (int64_column df) (zip group_cols k) g)
       (groupby group_cols df)"


section \<open>Example data\<close>

text \<open>
  The two outages of the end-to-end example of the specification, as rows of \<open>df_all\<close>:
  feeder \<open>Feeder A\<close>, period \<open>Jan\<close>, 100 customers for two hours on 1 January 2024 and
  50 customers for one hour on 2 January 2024 (both days lie in week \<open>2024-W00\<close>).
\<close>

definition example_df :: "outage list" where
  "example_df =
     [\<lparr> feeder_name = [70, 101, 101, 100, 101, 114, 32, 65], month = [74, 97, 110],
        interruption_time = Some 1704067200000000000,
        restoration_time = Some 1704074400000000000,
        duration_hr = Some 2, date = Some 19723,
        week = Some [50, 48, 50, 52, 45, 87, 48, 48],
        customer_no = Some (NInt 100), fault_category = CStr [84, 114, 101, 101] \<rparr>,
      \<lparr> feeder_name = [70, 101, 101, 100, 101, 114, 32, 65], month = [74, 97, 110],
        interruption_time = Some 1704153600000000000,
        restoration_time = Some 1704157200000000000,
        duration_hr = Some 1, date = Some 19724,
        week = Some [50, 48, 50, 52, 45, 87, 48, 48],
        customer_no = Some (NInt 50), fault_category = CStr [70, 117, 115, 101] \<rparr>]"

text \<open>A second feeder \<open>B\<close> in the same period: one outage booked with a customer count
  of \<open>-5\<close> and one with a count of \<open>0\<close>, on different days.\<close>

definition example_df_signed :: "outage list" where
  "example_df_signed =
     [\<lparr> feeder_name = [66], month = [74, 97, 110],
        interruption_time = Some 1704067200000000000,
        restoration_time = Some 1704074400000000000,
        duration_hr = Some 2, date = Some 19723,
        week = Some [50, 48, 50, 52, 45, 87, 48, 48],
        customer_no = Some (NInt (- 5)), fault_category = CStr [84, 114, 101, 101] \<rparr>,
      \<lparr> feeder_name = [66], month = [74, 97, 110],
        interruption_time = Some 1704153600000000000,
        restoration_time = Some 1704157200000000000,
        duration_hr = Some 1, date = Some 19724,
        week = Some [50, 48, 50, 52, 45, 87, 48, 48],
        customer_no = Some (NInt 0), fault_category = CStr [70, 117, 115, 101] \<rparr>]"

text \<open>
  Two tables whose integer counts leave the range of \<open>int64\<close> when added. In the first,
  feeder \<open>C\<close> has two outages of \<open>2^62\<close> customers each: the counts add up to \<open>2^63\<close>. In
  the second, feeder \<open>D\<close> has outages booked with \<open>-2^62\<close>, \<open>-2^62\<close> and \<open>-1\<close> customers: the
  counts add up to \<open>-2^63 - 1\<close>.
\<close>

definition example_df_large :: "outage list" where
  "example_df_large =
     [\<lparr> feeder_name = [67], month = [74, 97, 110],
        interruption_time = Some 1704067200000000000,
        restoration_time = Some 1704074400000000000,
        duration_hr = Some 2, date = Some 19723,
        week = Some [50, 48, 50, 52, 45, 87, 48, 48],
        customer_no = Some (NInt 4611686018427387904),
        fault_category = CStr [84, 114, 101, 101] \<rparr>,
      \<lparr> feeder_name = [67], month = [74, 97, 110],
        interruption_time = Some 1704153600000000000,
        restoration_time = Some 1704157200000000000,
        duration_hr = Some 1, date = Some 19724,
        week = Some [50, 48, 50, 52, 45, 87, 48, 48],
        customer_no = Some (NInt 4611686018427387904),
        fault_category = CStr [70, 117, 115, 101] \<rparr>]"



section \<open>Name Normalizer: \<open>clean_feeder_name\<close>\<close>

text \<open>
  The whitespace of \<open>str.strip()\<close> and \<open>str.split()\<close> without argument: the code points
  for which \<open>str.isspace\<close> holds, that is U+0009 to U+000D, U+001C to U+0020, U+0085,
  U+00A0, U+1680, U+2000 to U+200A, U+2028, U+2029, U+202F, U+205F and U+3000.
\<close>

definition isspace :: "nat \<Rightarrow> bool" where
  "isspace c \<longleftrightarrow>
     (9 \<le> c \<and> c \<le> 13) \<or> (28 \<le> c \<and> c \<le> 32) \<or> c = 133 \<or> c = 160 \<or> c = 5760
     \<or> (8192 \<le> c \<and> c \<le> 8202) \<or> c = 8232 \<or> c = 8233 \<or> c = 8239 \<or> c = 8287 \<or> c = 12288"

text \<open>\<open>name.strip()\<close>: whitespace is removed at both ends.\<close>

definition strip :: "ustring \<Rightarrow> ustring" where
  "strip s = rev (dropWhile isspace (rev (dropWhile isspace s)))"

text \<open>
  \<open>unicodedata.normalize("NFKD", name)\<close> reads two tables of the Unicode Character
  Database, which are parameters of the model: the full compatibility decomposition of a
  code point (the code point itself where it has none) and its canonical combining class.
  Normalization form KD replaces every code point by its full compatibility decomposition
  and then puts the result into canonical order: a character of non-zero combining class
  moves behind its right neighbour as long as that neighbour has a smaller, non-zero
  class, so that every run of combining marks is sorted by class and marks of equal class
  keep their order. Nothing is recomposed.
\<close>

record ucd =
  decomposition :: "nat \<Rightarrow> nat list"
  combining :: "nat \<Rightarrow> nat"

fun bubble :: "(nat \<Rightarrow> nat) \<Rightarrow> nat \<Rightarrow> ustring \<Rightarrow> ustring" where
  "bubble cc c [] = [c]"
| "bubble cc c (y # ys) =
     (if cc c > cc y \<and> cc y > 0 then y # bubble cc c ys else c # y # ys)"

fun canonical_ordering :: "(nat \<Rightarrow> nat) \<Rightarrow> ustring \<Rightarrow> ustring" where
  "canonical_ordering cc [] = []"
| "canonical_ordering cc (c # cs) = bubble cc c (canonical_ordering cc cs)"

definition nfkd :: "ucd \<Rightarrow> ustring \<Rightarrow> ustring" where
  "nfkd u s = canonical_ordering (combining u) (concat (map (decomposition u) s))"

text \<open>\<open>name.replace('\xa0', ' ')\<close>.\<close>

definition replace_nbsp :: "ustring \<Rightarrow> ustring" where
  "replace_nbsp s = map (\<lambda>c. if c = 160 then 32 else c) s"

text \<open>\<open>name.split()\<close>: skip whitespace, take the characters up to the next whitespace as
  a word, and go on behind it; no word is empty.\<close>

function split :: "ustring \<Rightarrow> ustring list" where
  "split s =
     (case dropWhile isspace s of
        [] \<Rightarrow> []
      | c # cs \<Rightarrow> (c # takeWhile (\<lambda>x. \<not> isspace x) cs)
                  # split (dropWhile (\<lambda>x. \<not> isspace x) cs))"
  by pat_completeness auto
termination
proof (relation "measure length")
  show "wf (measure length)" by simp
next
  fix s :: ustring and c cs
  assume a: "dropWhile isspace s = c # cs"
  have "length (dropWhile (\<lambda>x. \<not> isspace x) cs) \<le> length cs"
    by (rule length_dropWhile_le)
  also have "length cs < length (dropWhile isspace s)" using a by simp
  also have "\<dots> \<le> length s" by (rule length_dropWhile_le)
  finally show "(dropWhile (\<lambda>x. \<not> isspace x) cs, s) \<in> measure length" by simp
qed

declare split.simps [simp del]

text \<open>\<open>' '.join(words)\<close>.\<close>

fun join :: "ustring list \<Rightarrow> ustring" where
  "join [] = []"
| "join [t] = t"
| "join (t # ts) = t @ 32 # join ts"

text \<open>The function itself, on a value that is a string already (\<open>str(name)\<close> is \<open>name\<close>
  then): the four assignments in their order.\<close>

definition clean_feeder_name :: "ucd \<Rightarrow> ustring \<Rightarrow> ustring" where
  "clean_feeder_name u name = join (split (replace_nbsp (nfkd u (strip name))))"

text \<open>
  What the properties below need of the two tables; each line is a fact of the Unicode
  Character Database. A full decomposition cannot be decomposed further; whitespace
  characters have combining class 0; a whitespace character decomposes into a single
  whitespace character (itself, or the space U+0020); the space is its own decomposition.
\<close>

definition ucd_wf :: "ucd \<Rightarrow> bool" where
  "ucd_wf u \<longleftrightarrow>
     (\<forall>c. \<forall>d\<in>set (decomposition u c). decomposition u d = [d])
   \<and> (\<forall>c. isspace c \<longrightarrow> combining u c = 0)
   \<and> (\<forall>c. isspace c \<longrightarrow> (\<exists>w. decomposition u c = [w] \<and> isspace w))
   \<and> decomposition u 32 = [32]"

text \<open>
  An excerpt of the two tables for the examples: U+00E9 (e with acute) decomposes into
  U+0065 U+0301, U+00A0 (no-break space) into U+0020, and U+0301 (combining acute) has
  combining class 230. On the other code points the examples use (ASCII) the database
  has no decomposition and class 0, as here.
\<close>

definition ucd_excerpt :: ucd where
  "ucd_excerpt =
     \<lparr> decomposition = (\<lambda>c. if c = 233 then [101, 769] else if c = 160 then [32] else [c]),
       combining = (\<lambda>c. if c = 769 then 230 else 0) \<rparr>"

text \<open>A string is in canonical order when no character of non-zero combining class
  follows a character of greater class.\<close>

fun in_canonical_order :: "(nat \<Rightarrow> nat) \<Rightarrow> ustring \<Rightarrow> bool" where
  "in_canonical_order cc (a # b # s) =
     (\<not> (cc a > cc b \<and> cc b > 0) \<and> in_canonical_order cc (b # s))"
| "in_canonical_order cc s = True"

text \<open>A list of words: no word is empty, and no word holds a whitespace character.\<close>

definition words_ok :: "ustring list \<Rightarrow> bool" where
  "words_ok ts \<longleftrightarrow> list_all (\<lambda>t. t \<noteq> [] \<and> list_all (\<lambda>c. \<not> isspace c) t) ts"


section \<open>Query/Filter Layer\<close>

text \<open>\<open>row_val c m\<close> is \<open>m[c]\<close> for a row of a metrics table. Every row that
  \<open>compute_metrics\<close> builds carries all its grouping columns, with values that are not
  missing (lemmas \<open>mkey_compute_metrics\<close> and \<open>row_val_not_null\<close>), so on the three tables
  of the script the lookup below never takes its \<open>None\<close> branch.\<close>

definition row_val :: "col \<Rightarrow> metrics_row \<Rightarrow> val" where
  "row_val c m = (case map_of (mkey m) c of None \<Rightarrow> VNull | Some v \<Rightarrow> v)"

text \<open>\<open>DataFrame.sort_values(c)\<close>: ascending, missing values last. Rows with equal
  values are kept in their order here; the tables this is applied to have none.\<close>

definition sort_values :: "col \<Rightarrow> metrics_row list \<Rightarrow> metrics_row list" where
  "sort_values c t =
     sort_key (row_val c) (filter (\<lambda>m. row_val c m \<noteq> VNull) t)
     @ filter (\<lambda>m. row_val c m = VNull) t"

text \<open>The three tables built from \<open>df_all\<close>.\<close>

definition daily_metrics :: "outage list \<Rightarrow> metrics_row list" where
  "daily_metrics df_all = compute_metrics df_all [FeederName, Month, Date]"

definition weekly_metrics :: "outage list \<Rightarrow> metrics_row list" where
  "weekly_metrics df_all = compute_metrics df_all [FeederName, Month, Week]"

definition monthly_metrics :: "outage list \<Rightarrow> metrics_row list" where
  "monthly_metrics df_all = compute_metrics df_all [FeederName, Month]"

text \<open>The \<open>if period == "Daily" ... elif period == "Weekly" ... else\<close> chain: the pair
  \<open>(metrics_df, group_field)\<close>. The literals are the code points of \<open>Daily\<close> and
  \<open>Weekly\<close>.\<close>

definition select_dataset :: "outage list \<Rightarrow> ustring \<Rightarrow> metrics_row list \<times> col" where
  "select_dataset df_all period =
     (if period = [68, 97, 105, 108, 121] then (daily_metrics df_all, Date)
      else if period = [87, 101, 101, 107, 108, 121] then (weekly_metrics df_all, Week)
      else (monthly_metrics df_all, Month))"

definition filtered_metrics :: "outage list \<Rightarrow> ustring \<Rightarrow> ustring \<Rightarrow> ustring \<Rightarrow> metrics_row list" where
  "filtered_metrics df_all period selected_month selected_feeder =
     filter (\<lambda>m. row_val Month m = VStr selected_month \<and> row_val FeederName m = VStr selected_feeder)
       (fst (select_dataset df_all period))"

text \<open>
  What the script shows. \<open>Indices latest\<close> stands for the three \<open>st.metric\<close> cells, which
  read SAIFI, SAIDI and CAIDI from the row \<open>latest\<close> (and round them to three decimals for
  display); \<open>NoMetricsWarning\<close> is \<open>st.warning("No metrics available for this selection.")\<close>.
  \<open>Charts group_field filtered_metrics\<close> stands for the two plots over the filtered set,
  \<open>NoTrendInfo\<close> for \<open>st.info("No trend data available for the selected filters.")\<close>.
\<close>

datatype panel = Indices metrics_row | NoMetricsWarning
datatype trends = Charts col "metrics_row list" | NoTrendInfo

definition metrics_display :: "outage list \<Rightarrow> ustring \<Rightarrow> ustring \<Rightarrow> ustring \<Rightarrow> panel" where
  "metrics_display df_all period selected_month selected_feeder =
     (let fm = filtered_metrics df_all period selected_month selected_feeder;
          group_field = snd (select_dataset df_all period)
      in if fm \<noteq> [] then Indices (last (sort_values group_field fm)) else NoMetricsWarning)"

definition plots :: "outage list \<Rightarrow> ustring \<Rightarrow> ustring \<Rightarrow> ustring \<Rightarrow> trends" where
  "plots df_all period selected_month selected_feeder =
     (let fm = filtered_metrics df_all period selected_month selected_feeder;
          group_field = snd (select_dataset df_all period)
      in if fm \<noteq> [] then Charts group_field fm else NoTrendInfo)"

text \<open>The sub-period field of a granularity as the specification names it: the date for
  daily, the week label for weekly, the period label for monthly.\<close>

definition sub_period_field :: "ustring \<Rightarrow> col" where
  "sub_period_field period =
     (if period = [68, 97, 105, 108, 121] then Date
      else if period = [87, 101, 101, 107, 108, 121] then Week else Month)"


section \<open>Record Ingestor and Dataset Merger\<close>

text \<open>
  One record of \<open>ws.get_all_records()\<close>, read through the column names with their
  surrounding whitespace stripped (\<open>df.columns.str.strip()\<close>): the five columns the
  script reads. The data source is taken to deliver them all, as the external interface
  of the specification says; further columns are carried along by the script and read
  nowhere.
\<close>

record raw_record =
  raw_feeder_name :: cell
  raw_interruption_time :: cell
  raw_restoration_time :: cell
  raw_customer_no :: cell
  raw_fault_category :: cell

text \<open>A worksheet: its title and its records.\<close>

record worksheet =
  title :: ustring
  records :: "raw_record list"

text \<open>
  \<open>pd.DataFrame(data)\<close> gives every column a dtype. A column with a text in it keeps
  its cells as they are (dtype \<open>object\<close>), and so does a column of integers (\<open>int64\<close>); in
  any other column, one of numbers with a double or a missing value among them, the
  integers become doubles (\<open>float64\<close>).
\<close>

definition is_text :: "cell \<Rightarrow> bool" where
  "is_text c = (case c of CStr s \<Rightarrow> True | _ \<Rightarrow> False)"

definition is_integer :: "cell \<Rightarrow> bool" where
  "is_integer c = (case c of CInt i \<Rightarrow> True | _ \<Rightarrow> False)"

definition as_double :: "cell \<Rightarrow> cell" where
  "as_double c = (case c of CInt i \<Rightarrow> CFlt (of_int (sint i)) | _ \<Rightarrow> c)"

definition dataframe_column :: "cell list \<Rightarrow> cell list" where
  "dataframe_column cells =
     (if list_ex is_text cells \<or> list_all is_integer cells then cells else map as_double cells)"

text \<open>
  The library functions the loop calls, as parameters: the Unicode tables behind
  \<open>unicodedata.normalize\<close>; \<open>str\<close> on a number; \<open>pd.to_datetime(..., errors="coerce",
  dayfirst=True)\<close> on a whole column (a value that does not parse becomes \<open>NaT\<close>, here
  \<open>None\<close>; how one text is read may depend on the others of the column); the number parser
  behind \<open>pd.to_numeric(..., errors="coerce")\<close> on a text, which gives an integer or a
  double; and \<open>strftime("%Y-W%U")\<close>.
\<close>

record pylib =
  unicode :: ucd
  number_str :: "cell \<Rightarrow> ustring"
  to_datetime :: "cell list \<Rightarrow> int option list"
  parse_number :: "ustring \<Rightarrow> num option"
  strftime_week :: "int \<Rightarrow> ustring"

text \<open>\<open>str(name)\<close> on a cell of the column \<open>Feeder Name\<close>: a text is itself.\<close>

definition py_str :: "pylib \<Rightarrow> cell \<Rightarrow> ustring" where
  "py_str lib c = (case c of CStr s \<Rightarrow> s | _ \<Rightarrow> number_str lib c)"

text \<open>
  \<open>pd.to_numeric(..., errors="coerce")\<close> on a column. Cell by cell a number stays, a
  text is parsed, and what does not parse is \<open>NaN\<close>. The result is an \<open>int64\<close> column when
  every value is an integer; otherwise it is a \<open>float64\<close> column, in which the integers
  are doubles.
\<close>

definition numeric_cell :: "pylib \<Rightarrow> cell \<Rightarrow> num option" where
  "numeric_cell lib c =
     (case c of CNull \<Rightarrow> None | CStr s \<Rightarrow> parse_number lib s
      | CInt i \<Rightarrow> Some (NInt i) | CFlt x \<Rightarrow> Some (NFlt x))"

definition to_numeric :: "pylib \<Rightarrow> cell list \<Rightarrow> num option list" where
  "to_numeric lib cells =
     (let values = map (numeric_cell lib) cells
      in if list_all is_int64 values then values
         else map (map_option (\<lambda>n. NFlt (num_real n))) values)"

text \<open>\<open>(restoration - interruption).dt.total_seconds() / 3600\<close>, missing where either
  timestamp is.\<close>

definition hours_between :: "int option \<Rightarrow> int option \<Rightarrow> real option" where
  "hours_between it rt =
     (case rt of None \<Rightarrow> None
      | Some r \<Rightarrow> (case it of None \<Rightarrow> None
                    | Some i \<Rightarrow> Some (of_int (r - i) / 1000000000 / 3600)))"

text \<open>The body of the loop up to the call of \<open>dropna\<close>: every record becomes a row with
  the period, the cleaned feeder name, the parsed timestamps, the duration, the day and
  week of the interruption and the numeric customer count.\<close>

definition converted :: "pylib \<Rightarrow> worksheet \<Rightarrow> outage list" where
  "converted lib ws =
     (let data = records ws;
          names = map (py_str lib) (dataframe_column (map raw_feeder_name data));
          its = to_datetime lib (dataframe_column (map raw_interruption_time data));
          rts = to_datetime lib (dataframe_column (map raw_restoration_time data));
          cns = to_numeric lib (dataframe_column (map raw_customer_no data));
          fcs = dataframe_column (map raw_fault_category data)
      in map (\<lambda>(name, it, rt, cn, fc).
               \<lparr> feeder_name = clean_feeder_name (unicode lib) name,
                 month = title ws,
                 interruption_time = it,
                 restoration_time = rt,
                 duration_hr = hours_between it rt,
                 date = map_option (\<lambda>t. t div 86400000000000) it,
                 week = map_option (strftime_week lib) it,
                 customer_no = cn,
                 fault_category = fc \<rparr>)
             (zip names (zip its (zip rts (zip cns fcs)))))"

text \<open>\<open>df.dropna(subset=["Customer No", "Duration (hr)", "Fault Category"])\<close> keeps the
  rows that have a value in all three columns. An empty text is a value.\<close>

definition complete :: "outage \<Rightarrow> bool" where
  "complete r \<longleftrightarrow> customer_no r \<noteq> None \<and> duration_hr r \<noteq> None \<and> fault_category r \<noteq> CNull"

definition dropna :: "outage list \<Rightarrow> outage list" where
  "dropna df = filter complete df"

text \<open>The table that one worksheet with records appends to \<open>all_data\<close>.\<close>

definition ingest :: "pylib \<Rightarrow> worksheet \<Rightarrow> outage list" where
  "ingest lib ws = dropna (converted lib ws)"

text \<open>The loop over the worksheets: one without records is skipped (\<open>if not data:
  continue\<close>), every other one appends its table, whatever is left of it.\<close>

definition all_data :: "pylib \<Rightarrow> worksheet list \<Rightarrow> outage list list" where
  "all_data lib wss = map (ingest lib) (filter (\<lambda>ws. records ws \<noteq> []) wss)"

text \<open>
  \<open>pd.concat(all_data, ignore_index=True)\<close> raises \<open>ValueError("No objects to
  concatenate")\<close> on the empty list and joins the rows of the tables otherwise. The rows
  keep their numbers: where tables with integer counts and tables with doubles meet, the
  result holds both and stands for the \<open>float64\<close> column that pandas makes of them (see
  \<open>int64_column\<close>). A table without rows has no part in the dtype of the result, as in
  pandas before version 3.
\<close>

datatype error = NoObjectsToConcatenate

definition pd_concat :: "outage list list \<Rightarrow> error + outage list" where
  "pd_concat dfs = (if dfs = [] then Inl NoObjectsToConcatenate else Inr (concat dfs))"

definition build_df_all :: "pylib \<Rightarrow> worksheet list \<Rightarrow> error + outage list" where
  "build_df_all lib wss = pd_concat (all_data lib wss)"

text \<open>
  Library functions for the examples, right on the cells the examples hold: an integer is
  read as a timestamp in nanoseconds and an empty text as \<open>NaT\<close>; no text of the examples
  is a number; both example days lie in the week \<open>2024-W00\<close>, which runs from 1 to 6
  January 2024; no feeder name of the examples is a number.
\<close>

definition example_lib :: pylib where
  "example_lib =
     \<lparr> unicode = ucd_excerpt,
       number_str = (\<lambda>c. []),
       to_datetime = map (\<lambda>c. case c of CInt t \<Rightarrow> Some (sint t) | _ \<Rightarrow> None),
       parse_number = (\<lambda>s. None),
       strftime_week =
         (\<lambda>t. if 1704067200000000000 \<le> t \<and> t < 1704585600000000000
              then [50, 48, 50, 52, 45, 87, 48, 48] else []) \<rparr>"

text \<open>The worksheet \<open>Jan\<close> of the end-to-end example of the specification (the first
  feeder name with a trailing space), and a third record with a no-break space in the
  name, 7 customers, no restoration time and no fault category.\<close>

definition example_sheet :: worksheet where
  "example_sheet =
     \<lparr> title = [74, 97, 110],
       records =
         [\<lparr> raw_feeder_name = CStr [70, 101, 101, 100, 101, 114, 32, 65, 32],
            raw_interruption_time = CInt 1704067200000000000,
            raw_restoration_time = CInt 1704074400000000000,
            raw_customer_no = CInt 100,
            raw_fault_category = CStr [84, 114, 101, 101] \<rparr>,
          \<lparr> raw_feeder_name = CStr [70, 101, 101, 100, 101, 114, 32, 65],
            raw_interruption_time = CInt 1704153600000000000,
            raw_restoration_time = CInt 1704157200000000000,
            raw_customer_no = CInt 50,
            raw_fault_category = CStr [70, 117, 115, 101] \<rparr>,
          \<lparr> raw_feeder_name = CStr [70, 101, 101, 100, 101, 114, 160, 65],
            raw_interruption_time = CInt 1704153600000000000,
            raw_restoration_time = CStr [],
            raw_customer_no = CInt 7,
            raw_fault_category = CStr [] \<rparr>] \<rparr>"

text \<open>A worksheet whose one record has an empty customer count.\<close>

definition example_sheet_unusable :: worksheet where
  "example_sheet_unusable =
     \<lparr> title = [74, 97, 110],
       records =
         [\<lparr> raw_feeder_name = CStr [66],
            raw_interruption_time = CInt 1704240000000000000,
            raw_restoration_time = CInt 1704243600000000000,
            raw_customer_no = CStr [],
            raw_fault_category = CStr [84, 114, 101, 101] \<rparr>] \<rparr>"


section \<open>Quantities of the specification\<close>

text \<open>The quantities of the specification: \<open>C\<close>, the sum of the customer counts of the
  rows, and \<open>W\<close>, the sum of duration times customer count. Both are sums of numbers, with
  no wrap-around.\<close>

definition total_customers :: "outage list \<Rightarrow> real" where
  "total_customers g = (\<Sum>r\<leftarrow>g. case customer_no r of None \<Rightarrow> 0 | Some c \<Rightarrow> num_real c)"

definition total_customer_hours :: "outage list \<Rightarrow> real" where
  "total_customer_hours g =
     (\<Sum>r\<leftarrow>g. case (duration_hr r, customer_no r) of
             (Some d, Some c) \<Rightarrow> d * num_real c | _ \<Rightarrow> 0)"

text \<open>
  The counts of the rows \<open>g\<close> of a table \<open>df\<close> add up without wrap-around: the column of
  \<open>df\<close> is \<open>float64\<close>, or the sum of the integers lies in the range of \<open>int64\<close>, from
  \<open>-2^63\<close> to \<open>2^63 - 1\<close>. The two halves of the range are named separately.
\<close>

definition sum_not_below_int64 :: "outage list \<Rightarrow> outage list \<Rightarrow> bool" where
  "sum_not_below_int64 df g \<longleftrightarrow> \<not> int64_column df \<or> - (2 ^ 63) \<le> total_customers g"

definition sum_not_above_int64 :: "outage list \<Rightarrow> outage list \<Rightarrow> bool" where
  "sum_not_above_int64 df g \<longleftrightarrow> \<not> int64_column df \<or> total_customers g < 2 ^ 63"

text \<open>The rows of \<open>df\<close> that belong to the group of a metrics row: those whose values in
  the grouping columns are the ones the metrics row carries.\<close>

definition rows_of_group :: "outage list \<Rightarrow> metrics_row \<Rightarrow> outage list" where
  "rows_of_group df m = filter (\<lambda>r. map (\<lambda>c. col_val c r) (map fst (mkey m)) = map snd (mkey m)) df"

text \<open>What the aggregator reads of a row: its values in the grouping columns, its
  duration and its customer count.\<close>

definition metrics_view :: "col list \<Rightarrow> outage \<Rightarrow> val list \<times> real option \<times> num option" where
  "metrics_view gcols r = (group_key gcols r, duration_hr r, customer_no r)"

text \<open>
  The normalizer as the specification words it, with "canonical decomposition, then
  recomposition" (normalization form C) in the place of the call to
  \<open>unicodedata.normalize\<close>: full canonical decomposition and canonical ordering, then
  the canonical composition algorithm, in which a character combines with the last
  starter before it when the pair has a primary composite and no character in between
  blocks it (one of class 0, or of a class not below its own). The canonical
  decompositions and the primary composites are two more tables of the database.
\<close>

fun compose_from ::
  "(nat \<Rightarrow> nat \<Rightarrow> nat option) \<Rightarrow> (nat \<Rightarrow> nat) \<Rightarrow> nat \<Rightarrow> ustring \<Rightarrow> ustring \<Rightarrow> ustring" where
  "compose_from pc cc l mid [] = l # mid"
| "compose_from pc cc l mid (c # cs) =
     (case (if list_ex (\<lambda>b. cc b = 0 \<or> cc b \<ge> cc c) mid then None else pc l c) of
        Some p \<Rightarrow> compose_from pc cc p mid cs
      | None \<Rightarrow>
          if cc c = 0 then l # mid @ compose_from pc cc c [] cs
          else compose_from pc cc l (mid @ [c]) cs)"

fun canonical_composition ::
  "(nat \<Rightarrow> nat \<Rightarrow> nat option) \<Rightarrow> (nat \<Rightarrow> nat) \<Rightarrow> ustring \<Rightarrow> ustring" where
  "canonical_composition pc cc [] = []"
| "canonical_composition pc cc (c # cs) =
     (if cc c = 0 then compose_from pc cc c [] cs else c # canonical_composition pc cc cs)"

definition nfc ::
  "(nat \<Rightarrow> nat list) \<Rightarrow> (nat \<Rightarrow> nat) \<Rightarrow> (nat \<Rightarrow> nat \<Rightarrow> nat option) \<Rightarrow> ustring \<Rightarrow> ustring" where
  "nfc dc cc pc s = canonical_composition pc cc (canonical_ordering cc (concat (map dc s)))"

definition spec_normalize ::
  "(nat \<Rightarrow> nat list) \<Rightarrow> (nat \<Rightarrow> nat) \<Rightarrow> (nat \<Rightarrow> nat \<Rightarrow> nat option) \<Rightarrow> ustring \<Rightarrow> ustring" where
  "spec_normalize dc cc pc name = join (split (replace_nbsp (nfc dc cc pc (strip name))))"

text \<open>The excerpt of these two tables for U+00E9: it decomposes canonically into
  U+0065 U+0301, and is the primary composite of that pair.\<close>

definition canonical_decomposition_excerpt :: "nat \<Rightarrow> nat list" where
  "canonical_decomposition_excerpt c = (if c = 233 then [101, 769] else [c])"

definition primary_composite_excerpt :: "nat \<Rightarrow> nat \<Rightarrow> nat option" where
  "primary_composite_excerpt a b = (if a = 101 \<and> b = 769 then Some 233 else None)"


section \<open>Properties of the aggregator\<close>

lemma sint_sum_list:
  "sint (sum_list ws :: int64) = signed_take_bit 63 (sum_list (map sint ws))"
proof (induction ws)
  case Nil
  then show ?case by simp
next
  case (Cons a ws)
  have "sint (a + sum_list ws) = signed_take_bit 63 (sint a + sint (sum_list ws))"
    by (simp add: sint_word_ariths)
  also have "\<dots> = signed_take_bit 63
      (signed_take_bit 63 (sint a) + signed_take_bit 63 (sum_list (map sint ws)))"
    using sint_ge [of a] sint_lt [of a] by (simp add: Cons.IH signed_take_bit_int_eq_self)
  also have "\<dots> = signed_take_bit 63 (sint a + sum_list (map sint ws))"
    by (rule signed_take_bit_add)
  finally show ?case by simp
qed

lemma total_customers_int64:
  assumes "list_all (\<lambda>r. is_int64 (customer_no r)) g"
  shows "total_customers g = of_int (sum_list (map (\<lambda>r. sint (int64_of (customer_no r))) g))"
  using assms
  by (induction g)
     (auto simp: total_customers_def is_int64_def int64_of_def split: option.splits num.splits)

lemma customer_sum_float64: "customer_sum False g = total_customers g"
  by (induction g)
     (simp_all add: customer_sum_def total_customers_def series_sum_def split: option.splits)

text \<open>Where the counts add up without wrap-around, the sum that the code computes is the
  sum of the counts.\<close>

lemma customer_sum_exact:
  assumes sub: "set g \<subseteq> set df"
    and lo: "sum_not_below_int64 df g" and hi: "sum_not_above_int64 df g"
  shows "customer_sum (int64_column df) g = total_customers g"
proof (cases "int64_column df")
  case False
  then show ?thesis by (simp add: customer_sum_float64)
next
  case True
  let ?k = "sum_list (map (\<lambda>r. sint (int64_of (customer_no r))) g)"
  from True sub have "list_all (\<lambda>r. is_int64 (customer_no r)) g"
    by (auto simp: int64_column_def list_all_iff)
  then have total: "total_customers g = of_int ?k" by (rule total_customers_int64)
  from True lo total have "(- (2 ^ 63) :: real) \<le> of_int ?k"
    by (simp add: sum_not_below_int64_def)
  then have "real_of_int (- (2 ^ 63)) \<le> of_int ?k" by simp
  then have 1: "- (2 ^ 63) \<le> ?k" by (simp only: of_int_le_iff)
  from True hi total have "of_int ?k < (2 ^ 63 :: real)"
    by (simp add: sum_not_above_int64_def)
  then have "of_int ?k < real_of_int (2 ^ 63)" by simp
  then have 2: "?k < 2 ^ 63" by (simp only: of_int_less_iff)
  have "sint (sum_list (map (\<lambda>r. int64_of (customer_no r)) g)) = signed_take_bit 63 ?k"
    by (simp add: sint_sum_list comp_def)
  also have "\<dots> = ?k" using 1 2 by (rule signed_take_bit_int_eq_self)
  finally show ?thesis using True total by (simp add: customer_sum_def)
qed

lemma weighted_sum_eq: "weighted_sum g = total_customer_hours g"
  by (induction g)
     (simp_all add: weighted_sum_def total_customer_hours_def series_sum_def series_mul_def
        split: option.splits)

lemma length_group_key [simp]: "length (group_key gcols r) = length gcols"
  by (simp add: group_key_def)

lemma compute_metrics_row:
  assumes "m \<in> set (compute_metrics df gcols)"
  obtains k where "mkey m = zip gcols k" "length k = length gcols" "VNull \<notin> set k"
    "m = group_metrics (int64_column df) (zip gcols k) (filter (\<lambda>r. group_key gcols r = k) df)"
proof -
  define kept where "kept = filter (\<lambda>r. VNull \<notin> set (group_key gcols r)) df"
  from assms obtain k where k: "k \<in> set (map (group_key gcols) kept)"
    and m: "m = group_metrics (int64_column df) (zip gcols k)
                  (filter (\<lambda>r. group_key gcols r = k) kept)"
    by (auto simp: compute_metrics_def groupby_def Let_def kept_def)
  from k obtain r where r: "r \<in> set kept" "k = group_key gcols r" by auto
  then have nn: "VNull \<notin> set k" and len: "length k = length gcols"
    by (auto simp: kept_def)
  have "filter (\<lambda>r. group_key gcols r = k) kept = filter (\<lambda>r. group_key gcols r = k) df"
    unfolding kept_def filter_filter using nn by (intro filter_cong) auto
  with m have "m = group_metrics (int64_column df) (zip gcols k)
                     (filter (\<lambda>r. group_key gcols r = k) df)"
    by simp
  moreover have "mkey m = zip gcols k"
    using m by (simp add: group_metrics_def)
  ultimately show thesis using that len nn by blast
qed

lemma compute_metrics_group:
  assumes "m \<in> set (compute_metrics df gcols)"
  shows "\<exists>k. m = group_metrics (int64_column df) k (rows_of_group df m)"
proof -
  from assms obtain k where k: "mkey m = zip gcols k" "length k = length gcols"
    and m: "m = group_metrics (int64_column df) (zip gcols k)
                  (filter (\<lambda>r. group_key gcols r = k) df)"
    by (rule compute_metrics_row)
  have "rows_of_group df m = filter (\<lambda>r. group_key gcols r = k) df"
    using k by (simp add: rows_of_group_def group_key_def)
  with m show ?thesis by metis
qed

text \<open>The three indices of a group in terms of the sum that the code computes, whether it
  wrapped around or not.\<close>

lemma compute_metrics_computed:
  assumes "m \<in> set (compute_metrics df gcols)"
  shows "SAIDI m = (if customer_sum (int64_column df) (rows_of_group df m) > 0
                    then total_customer_hours (rows_of_group df m)
                         / customer_sum (int64_column df) (rows_of_group df m)
                    else 0)"
    and "SAIFI m = (if customer_sum (int64_column df) (rows_of_group df m) > 0 then 1 else 0)"
    and "CAIDI m = (if customer_sum (int64_column df) (rows_of_group df m) > 0
                    then total_customer_hours (rows_of_group df m)
                         / customer_sum (int64_column df) (rows_of_group df m)
                    else 0)"
proof -
  from compute_metrics_group [OF assms] obtain k
    where m: "m = group_metrics (int64_column df) k (rows_of_group df m)" ..
  show "SAIDI m = (if customer_sum (int64_column df) (rows_of_group df m) > 0
                    then total_customer_hours (rows_of_group df m)
                         / customer_sum (int64_column df) (rows_of_group df m)
                    else 0)"
    by (subst m) (simp add: group_metrics_def weighted_sum_eq)
  show "SAIFI m = (if customer_sum (int64_column df) (rows_of_group df m) > 0 then 1 else 0)"
    by (subst m) (simp add: group_metrics_def)
  show "CAIDI m = (if customer_sum (int64_column df) (rows_of_group df m) > 0
                    then total_customer_hours (rows_of_group df m)
                         / customer_sum (int64_column df) (rows_of_group df m)
                    else 0)"
    by (subst m) (simp add: group_metrics_def weighted_sum_eq)
qed

lemma rows_of_group_subset: "set (rows_of_group df m) \<subseteq> set df"
  by (auto simp: rows_of_group_def)

lemmas eval_metrics =
  compute_metrics_def groupby_def group_key_def group_metrics_def customer_sum_def
  weighted_sum_def series_sum_def series_mul_def opt_val_def rows_of_group_def
  total_customers_def total_customer_hours_def less_eq_val_def less_val_def
  int64_column_def is_int64_def int64_of_def sum_not_below_int64_def sum_not_above_int64_def







lemma total_customers_nonneg:
  assumes "\<forall>r\<in>set g. \<forall>c. customer_no r = Some c \<longrightarrow> 0 \<le> num_real c"
  shows "0 \<le> total_customers g"
  unfolding total_customers_def
  by (rule sum_list_nonneg) (use assms in \<open>auto split: option.splits\<close>)

text \<open>
  Claim C4 as stated needs only non-negative counts. In a table of integer counts the two
  counts of \<open>2^62\<close> are non-negative and add up to \<open>2^63\<close>, which is not 0, but their 64-bit
  sum is negative, and the code returns 0 for all three indices.
\<close>

theorem all_zero_iff_total_zero_counterexample:
  "map customer_no example_df_large
     = [Some (NInt 4611686018427387904), Some (NInt 4611686018427387904)]
   \<and> compute_metrics example_df_large [FeederName]
     = [\<lparr> mkey = [(FeederName, VStr [67])], SAIDI = 0, SAIFI = 0, CAIDI = 0 \<rparr>]
   \<and> rows_of_group example_df_large
         \<lparr> mkey = [(FeederName, VStr [67])], SAIDI = 0, SAIFI = 0, CAIDI = 0 \<rparr>
       = example_df_large
   \<and> total_customers example_df_large \<noteq> 0"
  by (simp add: eval_metrics example_df_large_def)

text \<open>
  Claim C4, as amended. For any group in any Metrics Aggregator output, SAIDI = 0 and
  SAIFI = 0 and CAIDI = 0 hold together if and only if the group's total customer count is
  exactly 0, customer counts being non-negative as the data model says and, in a table
  whose counts are all integers, the total being below \<open>2^63\<close>.
\<close>

theorem all_zero_iff_total_zero:
  assumes "m \<in> set (compute_metrics df gcols)"
    and "\<forall>r\<in>set df. \<forall>c. customer_no r = Some c \<longrightarrow> 0 \<le> num_real c"
    and "sum_not_above_int64 df (rows_of_group df m)"
  shows "(SAIDI m = 0 \<and> SAIFI m = 0 \<and> CAIDI m = 0)
         \<longleftrightarrow> total_customers (rows_of_group df m) = 0"
proof -
  let ?g = "rows_of_group df m"
  have "set ?g \<subseteq> set df" by (rule rows_of_group_subset)
  with assms(2) have nonneg: "0 \<le> total_customers ?g"
    by (intro total_customers_nonneg) blast
  then have "sum_not_below_int64 df ?g"
    by (simp add: sum_not_below_int64_def)
  with rows_of_group_subset have c: "customer_sum (int64_column df) ?g = total_customers ?g"
    using assms(3) by (rule customer_sum_exact)
  note ind = compute_metrics_computed [OF assms(1), unfolded c]
  show ?thesis
  proof (cases "total_customers ?g > 0")
    case True
    with ind(2) show ?thesis by simp
  next
    case False
    with nonneg have "total_customers ?g = 0" by simp
    with ind show ?thesis by simp
  qed
qed

theorem all_zero_iff_total_zero_witness:
  "\<lparr> mkey = [(FeederName, VStr [66]), (Month, VStr [74, 97, 110]), (Date, VDate 19724)],
      SAIDI = 0, SAIFI = 0, CAIDI = 0 \<rparr>
     \<in> set (compute_metrics (example_df @ tl example_df_signed) [FeederName, Month, Date])
   \<and> map customer_no (example_df @ tl example_df_signed)
       = [Some (NInt 100), Some (NInt 50), Some (NInt 0)]
   \<and> total_customers (tl example_df_signed) = 0"
  using all_zero_iff_total_zero [of
      "\<lparr> mkey = [(FeederName, VStr [66]), (Month, VStr [74, 97, 110]), (Date, VDate 19724)],
         SAIDI = 0, SAIFI = 0, CAIDI = 0 \<rparr>"
      "example_df @ tl example_df_signed" "[FeederName, Month, Date]"]
  by (simp add: eval_metrics example_df_def example_df_signed_def)

lemma filter_view:
  "map (metrics_view gcols) (filter (\<lambda>r. P (group_key gcols r)) df)
   = filter (\<lambda>v. P (fst v)) (map (metrics_view gcols) df)"
  by (induction df) (simp_all add: metrics_view_def)

lemma customer_sum_view:
  "customer_sum b g
   = (if b then of_int (sint (sum_list (map (\<lambda>v. int64_of (snd (snd v))) (map (metrics_view gcols) g))))
      else series_sum (map (\<lambda>v. map_option num_real (snd (snd v))) (map (metrics_view gcols) g)))"
  by (simp add: customer_sum_def metrics_view_def comp_def)

lemma weighted_sum_view:
  "weighted_sum g
   = series_sum (map (\<lambda>v. series_mul (fst (snd v)) (map_option num_real (snd (snd v))))
       (map (metrics_view gcols) g))"
  by (simp add: weighted_sum_def metrics_view_def comp_def)

lemma int64_column_view:
  "int64_column df = list_all (\<lambda>v. is_int64 (snd (snd v))) (map (metrics_view gcols) df)"
  by (simp add: int64_column_def metrics_view_def list_all_iff)

lemma group_key_view:
  "map (group_key gcols) g = map fst (map (metrics_view gcols) g)"
  by (simp add: metrics_view_def comp_def)

lemma group_metrics_view:
  assumes "map (metrics_view gcols) g = map (metrics_view gcols) h"
  shows "group_metrics b k g = group_metrics b k h"
proof -
  have c: "customer_sum b g = customer_sum b h"
    by (simp only: customer_sum_view [of b _ gcols] assms)
  have w: "weighted_sum g = weighted_sum h"
    by (simp only: weighted_sum_view [of _ gcols] assms)
  show ?thesis
    unfolding group_metrics_def c w ..
qed

text \<open>
  Claim C10. The output of the Metrics Aggregator depends only on the values in the
  grouping columns, the duration and the customer count of the input rows: two datasets
  that agree row for row on those, whatever their fault categories, interruption times
  and restoration times, give the same metrics table.
\<close>

theorem compute_metrics_depends_on_view:
  assumes "map (metrics_view gcols) df1 = map (metrics_view gcols) df2"
  shows "compute_metrics df1 gcols = compute_metrics df2 gcols"
proof -
  let ?kept = "\<lambda>df. filter (\<lambda>r. VNull \<notin> set (group_key gcols r)) df"
  have kept: "map (metrics_view gcols) (?kept df1) = map (metrics_view gcols) (?kept df2)"
    using assms by (simp add: filter_view [where P = "\<lambda>k. VNull \<notin> set k"])
  then have keys: "map (group_key gcols) (?kept df1) = map (group_key gcols) (?kept df2)"
    by (simp only: group_key_view)
  have col: "int64_column df1 = int64_column df2"
    using assms by (simp only: int64_column_view [of _ gcols])
  have grp: "group_metrics b (zip gcols k) (filter (\<lambda>r. group_key gcols r = k) (?kept df1))
           = group_metrics b (zip gcols k) (filter (\<lambda>r. group_key gcols r = k) (?kept df2))"
    for k b
  proof (rule group_metrics_view)
    show "map (metrics_view gcols) (filter (\<lambda>r. group_key gcols r = k) (?kept df1))
        = map (metrics_view gcols) (filter (\<lambda>r. group_key gcols r = k) (?kept df2))"
      using kept by (simp only: filter_view [where P = "\<lambda>x. x = k"])
  qed
  show ?thesis
    unfolding compute_metrics_def groupby_def Let_def map_map comp_def prod.case
    using keys grp col by simp
qed

theorem compute_metrics_depends_on_view_witness:
  "map (metrics_view [FeederName, Month]) example_df
     = map (metrics_view [FeederName, Month])
         (map (\<lambda>r. r\<lparr> interruption_time := None, restoration_time := None,
                        fault_category := CInt 7 \<rparr>) example_df)
   \<and> compute_metrics example_df [FeederName, Month]
     = compute_metrics
         (map (\<lambda>r. r\<lparr> interruption_time := None, restoration_time := None,
                        fault_category := CInt 7 \<rparr>) example_df) [FeederName, Month]
   \<and> example_df
     \<noteq> map (\<lambda>r. r\<lparr> interruption_time := None, restoration_time := None,
                        fault_category := CInt 7 \<rparr>) example_df"
proof -
  have v: "map (metrics_view [FeederName, Month]) example_df
     = map (metrics_view [FeederName, Month])
         (map (\<lambda>r. r\<lparr> interruption_time := None, restoration_time := None,
                        fault_category := CInt 7 \<rparr>) example_df)"
    by (simp add: metrics_view_def group_key_def example_df_def)
  have d: "example_df
     \<noteq> map (\<lambda>r. r\<lparr> interruption_time := None, restoration_time := None,
                        fault_category := CInt 7 \<rparr>) example_df"
    by (simp add: example_df_def)
  from v d compute_metrics_depends_on_view [OF v] show ?thesis by blast
qed


section \<open>Properties of the Name Normalizer\<close>

subsection \<open>split and join\<close>

lemma split_unfold_Nil:
  assumes "dropWhile isspace s = []"
  shows "split s = []"
  by (subst split.simps) (simp only: assms list.case)

lemma split_unfold_Cons:
  assumes "dropWhile isspace s = c # cs"
  shows "split s = (c # takeWhile (\<lambda>x. \<not> isspace x) cs)
                   # split (dropWhile (\<lambda>x. \<not> isspace x) cs)"
  by (subst split.simps) (simp only: assms list.case)

lemma split_Nil [simp]: "split [] = []"
  by (rule split_unfold_Nil) simp

lemma split_space_Cons [simp]: "isspace w \<Longrightarrow> split (w # s) = split s"
  by (simp add: split.simps [of "w # s"] split.simps [of s])

lemma split_nonspace_Cons:
  "\<not> isspace c \<Longrightarrow>
   split (c # cs) = (c # takeWhile (\<lambda>x. \<not> isspace x) cs) # split (dropWhile (\<lambda>x. \<not> isspace x) cs)"
  by (simp add: split.simps [of "c # cs"])

lemma split_spaces_append [simp]: "\<forall>c\<in>set ws. isspace c \<Longrightarrow> split (ws @ s) = split s"
  by (induction ws) simp_all

lemma split_dropWhile [simp]: "split (dropWhile isspace s) = split s"
  by (induction s) simp_all

lemma split_word:
  assumes "t \<noteq> []" "\<forall>c\<in>set t. \<not> isspace c"
  shows "split t = [t]"
proof -
  from assms obtain c cs where t: "t = c # cs" by (cases t) auto
  with assms(2) have c: "\<not> isspace c" and cs: "\<forall>x\<in>set cs. \<not> isspace x" by auto
  from cs have tw: "takeWhile (\<lambda>x. \<not> isspace x) cs = cs"
    and dw: "dropWhile (\<lambda>x. \<not> isspace x) cs = []"
    by simp_all
  show ?thesis
    unfolding t split_nonspace_Cons [OF c] tw dw by simp
qed

lemma split_append_space:
  assumes "isspace w"
  shows "split (a @ w # b) = split a @ split b"
proof (induction a rule: split.induct)
  case (1 s)
  show ?case
  proof (cases "dropWhile isspace s")
    case Nil
    then have all: "\<forall>c\<in>set s. isspace c" by (simp add: dropWhile_eq_Nil_conv)
    then have "split s = []" using split_spaces_append [of s "[]"] by simp
    moreover have "split (s @ w # b) = split b"
      using all assms split_spaces_append [of s "w # b"] by simp
    ultimately show ?thesis by simp
  next
    case (Cons c cs)
    let ?pre = "takeWhile isspace s"
    have s: "s = ?pre @ c # cs" using Cons by (metis takeWhile_dropWhile_id)
    have pre: "\<forall>x\<in>set ?pre. isspace x" by (auto dest: set_takeWhileD)
    have c: "\<not> isspace c" using Cons by (metis dropWhile_eq_Cons_conv)
    have tw: "takeWhile (\<lambda>x. \<not> isspace x) (cs @ w # b) = takeWhile (\<lambda>x. \<not> isspace x) cs"
      using assms by (induction cs) simp_all
    have dw: "dropWhile (\<lambda>x. \<not> isspace x) (cs @ w # b) = dropWhile (\<lambda>x. \<not> isspace x) cs @ w # b"
      using assms by (induction cs) simp_all
    have "split (s @ w # b) = split (c # (cs @ w # b))"
      using split_spaces_append [OF pre, of "c # cs @ w # b"] s by (metis append.assoc append_Cons)
    also have "\<dots> = (c # takeWhile (\<lambda>x. \<not> isspace x) cs)
                  # split (dropWhile (\<lambda>x. \<not> isspace x) cs @ w # b)"
      using c by (simp add: split_nonspace_Cons tw dw)
    also have "\<dots> = (c # takeWhile (\<lambda>x. \<not> isspace x) cs)
                  # split (dropWhile (\<lambda>x. \<not> isspace x) cs) @ split b"
      using "1.IH" [OF Cons] by simp
    also have "\<dots> = split (c # cs) @ split b"
      using c by (simp add: split_nonspace_Cons)
    also have "split (c # cs) = split s"
      using split_spaces_append [OF pre, of "c # cs"] s by simp
    finally show ?thesis .
  qed
qed

lemma words_ok_simps [simp]:
  "words_ok []"
  "words_ok (t # ts) \<longleftrightarrow> t \<noteq> [] \<and> (\<forall>c\<in>set t. \<not> isspace c) \<and> words_ok ts"
  by (auto simp: words_ok_def list_all_iff)

lemma words_ok_split: "words_ok (split s)"
proof (induction s rule: split.induct)
  case (1 s)
  show ?case
  proof (cases "dropWhile isspace s")
    case Nil
    then show ?thesis by (simp add: split_unfold_Nil)
  next
    case (Cons c cs)
    have c: "\<not> isspace c" using Cons by (metis dropWhile_eq_Cons_conv)
    have "split s = (c # takeWhile (\<lambda>x. \<not> isspace x) cs) # split (dropWhile (\<lambda>x. \<not> isspace x) cs)"
      using Cons by (rule split_unfold_Cons)
    with "1.IH" [OF Cons] c show ?thesis by (auto dest: set_takeWhileD)
  qed
qed

lemma set_split: "t \<in> set (split s) \<Longrightarrow> set t \<subseteq> set s"
proof (induction s rule: split.induct)
  case (1 s)
  show ?case
  proof (cases "dropWhile isspace s")
    case Nil
    with "1.prems" show ?thesis by (simp add: split_unfold_Nil)
  next
    case (Cons c cs)
    have sub: "set (c # cs) \<subseteq> set s" using Cons by (metis set_dropWhileD subsetI)
    have eq: "split s = (c # takeWhile (\<lambda>x. \<not> isspace x) cs) # split (dropWhile (\<lambda>x. \<not> isspace x) cs)"
      using Cons by (rule split_unfold_Cons)
    from "1.prems" eq consider "t = c # takeWhile (\<lambda>x. \<not> isspace x) cs"
      | "t \<in> set (split (dropWhile (\<lambda>x. \<not> isspace x) cs))" by auto
    then show ?thesis
    proof cases
      case 1
      then show ?thesis using sub by (auto dest: set_takeWhileD)
    next
      case 2
      from "1.IH" [OF Cons 2] have "set t \<subseteq> set (dropWhile (\<lambda>x. \<not> isspace x) cs)" .
      then show ?thesis using sub by (auto dest: set_dropWhileD)
    qed
  qed
qed

lemma split_join: "words_ok ts \<Longrightarrow> split (join ts) = ts"
proof (induction ts rule: join.induct)
  case 1
  then show ?case by simp
next
  case (2 t)
  then show ?case by (simp add: split_word)
next
  case (3 t v va)
  have sp: "isspace 32" by (simp add: isspace_def)
  from 3 show ?case
    by (simp add: split_append_space [OF sp] split_word)
qed

lemma join_ends:
  assumes "words_ok ts" "ts \<noteq> []"
  shows "join ts \<noteq> [] \<and> \<not> isspace (hd (join ts)) \<and> \<not> isspace (last (join ts))"
  using assms
proof (induction ts rule: join.induct)
  case 1
  then show ?case by simp
next
  case (2 t)
  then show ?case by (cases t) (auto simp: last_in_set)
next
  case (3 t v va)
  then have "join (v # va) \<noteq> []" "\<not> isspace (last (join (v # va)))" by auto
  moreover from 3 have "t \<noteq> []" "\<not> isspace (hd t)" by (cases t; auto)+
  ultimately show ?case by (simp add: hd_append)
qed

lemma strip_id:
  assumes "s = [] \<or> (\<not> isspace (hd s) \<and> \<not> isspace (last s))"
  shows "strip s = s"
proof (cases s rule: rev_cases)
  case Nil
  then show ?thesis by (simp add: strip_def)
next
  case (snoc ys y)
  with assms have h: "\<not> isspace (hd s)" and l: "\<not> isspace y" by auto
  have "s \<noteq> []" using snoc by simp
  then have "dropWhile isspace s = s" using h by (cases s) simp_all
  moreover have "dropWhile isspace (rev s) = rev s" using snoc l by simp
  ultimately show ?thesis by (simp add: strip_def)
qed

lemma strip_join: "words_ok ts \<Longrightarrow> strip (join ts) = join ts"
  by (cases "ts = []") (auto intro!: strip_id simp: join_ends)

lemma set_join: "set (join ts) \<subseteq> insert 32 (\<Union> (set ` set ts))"
  by (induction ts rule: join.induct) auto


subsection \<open>Canonical ordering\<close>

lemma set_bubble [simp]: "set (bubble cc c ys) = insert c (set ys)"
  by (induction ys) auto

lemma set_canonical_ordering [simp]: "set (canonical_ordering cc s) = set s"
  by (induction s) auto

lemma in_canonical_order_bubble:
  "in_canonical_order cc ys \<Longrightarrow> in_canonical_order cc (bubble cc c ys)"
proof (induction ys)
  case Nil
  then show ?case by simp
next
  case (Cons y ys)
  show ?case
  proof (cases "cc c > cc y \<and> cc y > 0")
    case False
    with Cons.prems show ?thesis by auto
  next
    case True
    have tail: "in_canonical_order cc (bubble cc c ys)"
      using Cons by (cases ys) simp_all
    show ?thesis
    proof (cases ys)
      case Nil
      with True show ?thesis by simp
    next
      case (Cons z zs)
      with True tail Cons.prems show ?thesis by auto
    qed
  qed
qed

lemma in_canonical_order_canonical_ordering:
  "in_canonical_order cc (canonical_ordering cc s)"
  by (induction s) (simp_all add: in_canonical_order_bubble)

lemma canonical_ordering_fixed:
  "in_canonical_order cc s \<Longrightarrow> canonical_ordering cc s = s"
proof (induction s)
  case Nil
  then show ?case by simp
next
  case (Cons a s)
  then have "canonical_ordering cc s = s" by (cases s) simp_all
  with Cons.prems show ?case by (cases s) auto
qed

lemma in_canonical_order_append_starter:
  "cc w = 0 \<Longrightarrow>
   in_canonical_order cc (a @ w # b) \<longleftrightarrow> in_canonical_order cc a \<and> in_canonical_order cc b"
proof (induction a rule: induct_list012)
  case 1
  show ?case by (cases b) (use 1 in simp_all)
next
  case (2 x)
  show ?case by (cases b) (use 2 in simp_all)
next
  case (3 x y zs)
  then show ?case by simp
qed

lemma in_canonical_order_append:
  "in_canonical_order cc (a @ b) \<Longrightarrow> in_canonical_order cc a \<and> in_canonical_order cc b"
proof (induction a rule: induct_list012)
  case 1
  then show ?case by simp
next
  case (2 x)
  show ?case by (cases b) (use 2 in simp_all)
next
  case (3 x y zs)
  then show ?case by simp
qed

lemma in_canonical_order_map:
  assumes "\<And>c. cc (f c) = cc c"
  shows "in_canonical_order cc (map f s) = in_canonical_order cc s"
  by (induction s rule: induct_list012) (simp_all add: assms)

lemma in_canonical_order_join_split:
  assumes "\<forall>c. isspace c \<longrightarrow> cc c = 0"
  shows "in_canonical_order cc s \<Longrightarrow> in_canonical_order cc (join (split s))"
proof (induction s rule: split.induct)
  case (1 s)
  show ?case
  proof (cases "dropWhile isspace s")
    case Nil
    then show ?thesis by (simp add: split_unfold_Nil)
  next
    case (Cons c cs)
    let ?tok = "c # takeWhile (\<lambda>x. \<not> isspace x) cs"
    let ?rest = "dropWhile (\<lambda>x. \<not> isspace x) cs"
    have s: "s = takeWhile isspace s @ ?tok @ ?rest"
      using Cons by (metis append_Cons takeWhile_dropWhile_id)
    with "1.prems" have "in_canonical_order cc (?tok @ ?rest)"
      using in_canonical_order_append by metis
    then have tok: "in_canonical_order cc ?tok" and rest: "in_canonical_order cc ?rest"
      using in_canonical_order_append by blast+
    have ih: "in_canonical_order cc (join (split ?rest))"
      using "1.IH" [OF Cons rest] .
    have sp: "cc 32 = 0" using assms by (simp add: isspace_def)
    have "join (?tok # split ?rest) = (if split ?rest = [] then ?tok else ?tok @ 32 # join (split ?rest))"
      by (cases "split ?rest") simp_all
    then have "in_canonical_order cc (join (?tok # split ?rest))"
      using tok ih in_canonical_order_append_starter
          [where cc = cc and w = 32 and a = ?tok and b = "join (split ?rest)", OF sp]
      by (simp del: in_canonical_order.simps join.simps)
    then show ?thesis by (simp only: split_unfold_Cons [OF Cons])
  qed
qed


subsection \<open>Idempotence\<close>

lemma concat_decomposition_fixed:
  "\<forall>c\<in>set s. d c = [c] \<Longrightarrow> concat (map d s) = s"
  by (induction s) simp_all

lemma chars_of_join_split:
  assumes "c \<in> set (join (split s))"
  shows "c = 32 \<or> (c \<in> set s \<and> \<not> isspace c)"
proof -
  from assms set_join [of "split s"] consider "c = 32" | t where "t \<in> set (split s)" "c \<in> set t"
    by auto
  then show ?thesis
  proof cases
    case 1
    then show ?thesis by simp
  next
    case 2
    from words_ok_split [of s] 2 have "\<not> isspace c"
      by (auto simp: words_ok_def list_all_iff)
    moreover from set_split [OF 2(1)] 2(2) have "c \<in> set s" by auto
    ultimately show ?thesis by simp
  qed
qed

lemma nonspace_of_replace_nbsp:
  assumes "c \<in> set (replace_nbsp s)" "\<not> isspace c"
  shows "c \<in> set s"
proof -
  from assms(1) obtain c' where c': "c' \<in> set s" "c = (if c' = 160 then 32 else c')"
    by (auto simp: replace_nbsp_def)
  with assms(2) have "c' \<noteq> 160" by (auto simp: isspace_def)
  with c' show ?thesis by simp
qed

lemma replace_nbsp_fixed: "160 \<notin> set s \<Longrightarrow> replace_nbsp s = s"
  by (induction s) (auto simp: replace_nbsp_def)

lemma clean_feeder_name_fixed:
  assumes wf: "ucd_wf u"
    and words: "words_ok ts"
    and dec: "\<forall>c\<in>set (join ts). decomposition u c = [c]"
    and ord: "in_canonical_order (combining u) (join ts)"
  shows "clean_feeder_name u (join ts) = join ts"
proof -
  let ?s = "join ts"
  have 1: "strip ?s = ?s" using words by (rule strip_join)
  have 2: "nfkd u ?s = ?s"
    unfolding nfkd_def using dec ord
    by (simp add: concat_decomposition_fixed canonical_ordering_fixed)
  have "160 \<notin> set ?s"
  proof
    assume "160 \<in> set ?s"
    with set_join [of ts] obtain t where "t \<in> set ts" "160 \<in> set t" by auto
    with words have "\<not> isspace 160" by (auto simp: words_ok_def list_all_iff)
    then show False by (simp add: isspace_def)
  qed
  then have 3: "replace_nbsp ?s = ?s" by (rule replace_nbsp_fixed)
  have 4: "split ?s = ts" using words by (rule split_join)
  show ?thesis
    unfolding clean_feeder_name_def 1 2 3 4 ..
qed

text \<open>
  Claim C8. The Name Normalizer is idempotent: for every string \<open>x\<close>, normalizing the
  result of normalization gives the same output as normalizing once. The tables of the
  Unicode Character Database enter through the four facts of \<open>ucd_wf\<close>.
\<close>

theorem clean_feeder_name_idempotent:
  assumes "ucd_wf u"
  shows "clean_feeder_name u (clean_feeder_name u x) = clean_feeder_name u x"
proof -
  let ?d = "decomposition u" and ?cc = "combining u"
  let ?t = "nfkd u (strip x)"
  let ?r = "replace_nbsp ?t"
  from assms have full: "\<And>c d. d \<in> set (?d c) \<Longrightarrow> ?d d = [d]"
    and starters: "\<forall>c. isspace c \<longrightarrow> ?cc c = 0"
    and space: "?d 32 = [32]"
    by (auto simp: ucd_wf_def)
  have dec: "\<forall>c\<in>set (join (split ?r)). ?d c = [c]"
  proof
    fix c assume "c \<in> set (join (split ?r))"
    then consider "c = 32" | "c \<in> set ?r" "\<not> isspace c"
      using chars_of_join_split by blast
    then show "?d c = [c]"
    proof cases
      case 1
      with space show ?thesis by simp
    next
      case 2
      then have "c \<in> set ?t" by (rule nonspace_of_replace_nbsp)
      then obtain c0 where "c \<in> set (?d c0)" by (auto simp: nfkd_def)
      then show ?thesis by (rule full)
    qed
  qed
  have "in_canonical_order ?cc ?t"
    unfolding nfkd_def by (rule in_canonical_order_canonical_ordering)
  moreover have "?cc (if c = 160 then 32 else c) = ?cc c" for c
    using starters by (simp add: isspace_def)
  ultimately have "in_canonical_order ?cc ?r"
    unfolding replace_nbsp_def by (simp add: in_canonical_order_map)
  then have ord: "in_canonical_order ?cc (join (split ?r))"
    by (rule in_canonical_order_join_split [OF starters])
  have "clean_feeder_name u (join (split ?r)) = join (split ?r)"
    using assms words_ok_split dec ord by (rule clean_feeder_name_fixed)
  then show ?thesis by (simp add: clean_feeder_name_def)
qed

lemma ucd_wf_excerpt: "ucd_wf ucd_excerpt"
  by (auto simp: ucd_wf_def ucd_excerpt_def isspace_def split: if_splits)

theorem clean_feeder_name_idempotent_witness:
  "clean_feeder_name ucd_excerpt [32, 70, 160, 160, 233, 9, 65, 32] = [70, 32, 101, 769, 32, 65]
   \<and> clean_feeder_name ucd_excerpt [70, 32, 101, 769, 32, 65] = [70, 32, 101, 769, 32, 65]"
proof -
  have e: "clean_feeder_name ucd_excerpt [32, 70, 160, 160, 233, 9, 65, 32] = [70, 32, 101, 769, 32, 65]"
    by (simp add: clean_feeder_name_def strip_def nfkd_def ucd_excerpt_def replace_nbsp_def
        split.simps isspace_def)
  from clean_feeder_name_idempotent [OF ucd_wf_excerpt, of "[32, 70, 160, 160, 233, 9, 65, 32]"]
  show ?thesis unfolding e by simp
qed


subsection \<open>Words of the result\<close>

lemma split_replace_nbsp: "split (replace_nbsp s) = split s"
proof (induction s rule: split.induct)
  case (1 s)
  have sp: "isspace (if c = 160 then 32 else c) = isspace c" for c
    by (simp add: isspace_def)
  have dw: "dropWhile isspace (replace_nbsp s) = replace_nbsp (dropWhile isspace s)"
    unfolding replace_nbsp_def by (simp add: dropWhile_map comp_def sp)
  show ?case
  proof (cases "dropWhile isspace s")
    case Nil
    then show ?thesis using dw by (simp add: split_unfold_Nil replace_nbsp_def)
  next
    case (Cons c cs)
    then have c: "\<not> isspace c" by (metis dropWhile_eq_Cons_conv)
    then have c160: "c \<noteq> 160" by (auto simp: isspace_def)
    have tw: "takeWhile (\<lambda>x. \<not> isspace x) (replace_nbsp cs) = takeWhile (\<lambda>x. \<not> isspace x) cs"
    proof (induction cs)
      case Nil
      then show ?case by (simp add: replace_nbsp_def)
    next
      case (Cons a cs)
      then show ?case by (auto simp: replace_nbsp_def isspace_def)
    qed
    have dw2: "dropWhile (\<lambda>x. \<not> isspace x) (replace_nbsp cs)
             = replace_nbsp (dropWhile (\<lambda>x. \<not> isspace x) cs)"
      unfolding replace_nbsp_def by (simp add: dropWhile_map comp_def sp)
    have "dropWhile isspace (replace_nbsp s) = c # replace_nbsp cs"
      using dw Cons c160 by (simp add: replace_nbsp_def)
    then have "split (replace_nbsp s)
             = (c # takeWhile (\<lambda>x. \<not> isspace x) (replace_nbsp cs))
               # split (dropWhile (\<lambda>x. \<not> isspace x) (replace_nbsp cs))"
      by (rule split_unfold_Cons)
    also have "\<dots> = (c # takeWhile (\<lambda>x. \<not> isspace x) cs)
                  # split (dropWhile (\<lambda>x. \<not> isspace x) cs)"
      using "1.IH" [OF Cons] by (simp add: tw dw2)
    also have "\<dots> = split s" using Cons by (rule split_unfold_Cons [symmetric])
    finally show ?thesis .
  qed
qed

lemma split_append_spaces: "\<forall>c\<in>set ws. isspace c \<Longrightarrow> split (a @ ws) = split a"
proof (cases ws)
  case Nil
  then show ?thesis by simp
next
  case (Cons w ws')
  assume a: "\<forall>c\<in>set ws. isspace c"
  with Cons have "isspace w" "\<forall>c\<in>set ws'. isspace c" by auto
  then have "split (a @ w # ws') = split a @ split ws'" "split ws' = []"
    using split_append_space [of w a ws'] split_spaces_append [of ws' "[]"] by auto
  with Cons show ?thesis by simp
qed

lemma split_strip: "split (strip s) = split s"
proof -
  let ?y = "dropWhile isspace s"
  have "?y = rev (dropWhile isspace (rev ?y)) @ rev (takeWhile isspace (rev ?y))"
    by (metis rev_append rev_rev_ident takeWhile_dropWhile_id)
  moreover have "\<forall>c\<in>set (rev (takeWhile isspace (rev ?y))). isspace c"
    by (auto dest: set_takeWhileD)
  ultimately have "split ?y = split (rev (dropWhile isspace (rev ?y)))"
    using split_append_spaces by metis
  then show ?thesis by (simp add: strip_def)
qed

lemma bubble_starter [simp]: "cc c = 0 \<Longrightarrow> bubble cc c ys = c # ys"
  by (cases ys) simp_all

lemma bubble_append_starter:
  "cc w = 0 \<Longrightarrow> bubble cc c (a @ w # b) = bubble cc c a @ w # b"
  by (induction a) simp_all

lemma canonical_ordering_append_starter:
  "cc w = 0 \<Longrightarrow>
   canonical_ordering cc (a @ w # b) = canonical_ordering cc a @ w # canonical_ordering cc b"
  by (induction a) (simp_all add: bubble_append_starter)

lemma nfkd_space_Cons:
  assumes "ucd_wf u" "isspace c"
  shows "\<exists>w. isspace w \<and> combining u w = 0 \<and> decomposition u c = [w]
           \<and> (\<forall>s. nfkd u (c # s) = w # nfkd u s)"
proof -
  from assms obtain w where w: "decomposition u c = [w]" "isspace w"
    by (auto simp: ucd_wf_def)
  with assms(1) have cc: "combining u w = 0" by (simp add: ucd_wf_def)
  have "nfkd u (c # s) = w # nfkd u s" for s
    by (simp add: nfkd_def w cc)
  with w cc show ?thesis by blast
qed

lemma nfkd_append_space:
  assumes "ucd_wf u" "isspace c"
  shows "nfkd u (a @ c # b) = nfkd u a @ nfkd u (c # b)"
proof -
  from nfkd_space_Cons [OF assms] obtain w
    where w: "combining u w = 0" "decomposition u c = [w]"
      and n: "nfkd u (c # b) = w # nfkd u b"
    by blast
  have "nfkd u (a @ c # b)
      = canonical_ordering (combining u)
          (concat (map (decomposition u) a) @ w # concat (map (decomposition u) b))"
    by (simp add: nfkd_def w)
  also have "\<dots> = nfkd u a @ w # nfkd u b"
    using w(1) by (simp add: canonical_ordering_append_starter nfkd_def)
  finally show ?thesis using n by simp
qed

lemma split_nfkd_space_Cons:
  assumes "ucd_wf u" "isspace c"
  shows "split (nfkd u (c # s)) = split (nfkd u s)"
proof -
  from nfkd_space_Cons [OF assms] obtain w
    where "isspace w" "nfkd u (c # s) = w # nfkd u s"
    by blast
  then show ?thesis by simp
qed

lemma split_nfkd_spaces_append:
  assumes "ucd_wf u" "\<forall>c\<in>set ws. isspace c"
  shows "split (nfkd u (ws @ s)) = split (nfkd u s)"
  using assms(2) by (induction ws) (simp_all add: split_nfkd_space_Cons [OF assms(1)])

lemma split_nfkd_append:
  assumes "ucd_wf u" "b = [] \<or> isspace (hd b)"
  shows "split (nfkd u (a @ b)) = split (nfkd u a) @ split (nfkd u b)"
proof (cases b)
  case Nil
  then show ?thesis by (simp add: nfkd_def)
next
  case (Cons c b')
  with assms(2) have c: "isspace c" by simp
  from nfkd_space_Cons [OF assms(1) c] obtain w
    where w: "isspace w" "nfkd u (c # b') = w # nfkd u b'"
    by blast
  have "split (nfkd u (a @ c # b')) = split (nfkd u a @ w # nfkd u b')"
    using nfkd_append_space [OF assms(1) c, of a b'] w(2) by simp
  also have "\<dots> = split (nfkd u a) @ split (nfkd u b')"
    using w(1) by (rule split_append_space)
  also have "split (nfkd u b') = split (nfkd u (c # b'))"
    using w by simp
  finally show ?thesis using Cons by simp
qed

lemma split_nfkd:
  assumes "ucd_wf u"
  shows "split (nfkd u s) = concat (map (\<lambda>w. split (nfkd u w)) (split s))"
proof (induction s rule: split.induct)
  case (1 s)
  have pre: "\<forall>c\<in>set (takeWhile isspace s). isspace c" by (auto dest: set_takeWhileD)
  have s: "s = takeWhile isspace s @ dropWhile isspace s" by simp
  have drop: "split (nfkd u s) = split (nfkd u (dropWhile isspace s))"
    using split_nfkd_spaces_append [OF assms pre, of "dropWhile isspace s"] by simp
  show ?case
  proof (cases "dropWhile isspace s")
    case Nil
    with drop show ?thesis by (simp add: split_unfold_Nil nfkd_def)
  next
    case (Cons c cs)
    let ?tok = "c # takeWhile (\<lambda>x. \<not> isspace x) cs"
    let ?rest = "dropWhile (\<lambda>x. \<not> isspace x) cs"
    have rest: "?rest = [] \<or> isspace (hd ?rest)"
      by (metis (mono_tags, lifting) hd_dropWhile)
    have "dropWhile isspace s = ?tok @ ?rest" using Cons by simp
    with drop have "split (nfkd u s) = split (nfkd u (?tok @ ?rest))" by simp
    also have "\<dots> = split (nfkd u ?tok) @ split (nfkd u ?rest)"
      using assms rest by (rule split_nfkd_append)
    also have "split (nfkd u ?rest) = concat (map (\<lambda>w. split (nfkd u w)) (split ?rest))"
      using "1.IH" [OF Cons] .
    finally show ?thesis by (simp add: split_unfold_Cons [OF Cons])
  qed
qed

lemma split_clean_feeder_name:
  assumes "ucd_wf u"
  shows "split (clean_feeder_name u x) = concat (map (\<lambda>w. split (nfkd u w)) (split x))"
proof -
  have "split (clean_feeder_name u x) = split (replace_nbsp (nfkd u (strip x)))"
    unfolding clean_feeder_name_def using words_ok_split by (rule split_join)
  also have "\<dots> = split (nfkd u (strip x))" by (rule split_replace_nbsp)
  also have "\<dots> = concat (map (\<lambda>w. split (nfkd u w)) (split (strip x)))"
    using assms by (rule split_nfkd)
  finally show ?thesis by (simp add: split_strip)
qed

text \<open>
  Claim C5, as amended. For every input string the Name Normalizer trims surrounding
  whitespace, applies Unicode compatibility decomposition (normalization form KD, with no
  recomposition), replaces non-breaking spaces by ordinary spaces and collapses every run
  of whitespace to a single space: its result is the whitespace-separated words of the
  input, each in form KD (and split again where the decomposition brought a space in),
  joined by single spaces; it has no whitespace at its ends, no whitespace character but
  the space U+0020, and equals its own words joined by single spaces. It applies no case
  mapping: when form KD leaves the words of the input unchanged, the result is those
  words, character for character. Consequently two inputs whose words agree up to form KD
  (so inputs differing only in whitespace, or in compatibility-equivalent spellings)
  normalize to the same output.
\<close>

theorem clean_feeder_name_nfkd_words:
  assumes "ucd_wf u"
  shows "clean_feeder_name u x = join (concat (map (\<lambda>w. split (nfkd u w)) (split x)))
       \<and> strip (clean_feeder_name u x) = clean_feeder_name u x
       \<and> (\<forall>c\<in>set (clean_feeder_name u x). isspace c \<longrightarrow> c = 32)
       \<and> join (split (clean_feeder_name u x)) = clean_feeder_name u x
       \<and> ((\<forall>w\<in>set (split x). nfkd u w = w) \<longrightarrow> clean_feeder_name u x = join (split x))
       \<and> (map (nfkd u) (split x) = map (nfkd u) (split y)
            \<longrightarrow> clean_feeder_name u x = clean_feeder_name u y)"
proof -
  let ?words = "\<lambda>x. concat (map (\<lambda>w. split (nfkd u w)) (split x))"
  have collapsed: "join (split (clean_feeder_name u z)) = clean_feeder_name u z" for z
    unfolding clean_feeder_name_def using words_ok_split by (simp add: split_join)
  have char: "clean_feeder_name u z = join (?words z)" for z
    using collapsed [of z] split_clean_feeder_name [OF assms, of z] by simp
  have trimmed: "strip (clean_feeder_name u x) = clean_feeder_name u x"
    unfolding clean_feeder_name_def using words_ok_split by (rule strip_join)
  have spaces: "\<forall>c\<in>set (clean_feeder_name u x). isspace c \<longrightarrow> c = 32"
    unfolding clean_feeder_name_def using chars_of_join_split by blast
  have same: "clean_feeder_name u x = join (split x)" if "\<forall>w\<in>set (split x). nfkd u w = w"
  proof -
    have "split (nfkd u w) = [w]" if "w \<in> set (split x)" for w
    proof -
      from words_ok_split [of x] that have "w \<noteq> []" "\<forall>c\<in>set w. \<not> isspace c"
        by (auto simp: words_ok_def list_all_iff)
      then have "split w = [w]" by (rule split_word)
      with \<open>\<forall>w\<in>set (split x). nfkd u w = w\<close> that show ?thesis by simp
    qed
    then have m: "map (\<lambda>w. split (nfkd u w)) (split x) = map (\<lambda>w. [w]) (split x)"
      by (intro map_cong) simp_all
    have "?words x = split x" unfolding m by simp
    with char [of x] show ?thesis by simp
  qed
  have equiv: "clean_feeder_name u x = clean_feeder_name u y"
    if "map (nfkd u) (split x) = map (nfkd u) (split y)"
  proof -
    have m: "map (\<lambda>w. split (nfkd u w)) (split z) = map split (map (nfkd u) (split z))" for z
      by simp
    have "?words x = ?words y" unfolding m that ..
    with char [of x] char [of y] show ?thesis by simp
  qed
  from char [of x] trimmed spaces collapsed [of x] same equiv show ?thesis by blast
qed

theorem clean_feeder_name_nfkd_words_witness:
  "clean_feeder_name ucd_excerpt [32, 70, 160, 160, 233, 9, 65, 32] = [70, 32, 101, 769, 32, 65]
   \<and> clean_feeder_name ucd_excerpt [70, 9, 101, 769, 32, 32, 65] = [70, 32, 101, 769, 32, 65]
   \<and> clean_feeder_name ucd_excerpt [32, 69, 82, 65, 160, 49, 32] = [69, 82, 65, 32, 49]"
proof -
  let ?x = "[32, 70, 160, 160, 233, 9, 65, 32]" and ?y = "[70, 9, 101, 769, 32, 32, 65]"
    and ?z = "[32, 69, 82, 65, 160, 49, 32]"
  have x: "clean_feeder_name ucd_excerpt ?x = [70, 32, 101, 769, 32, 65]"
    by (simp add: clean_feeder_name_def strip_def nfkd_def ucd_excerpt_def replace_nbsp_def
        split.simps isspace_def)
  have w: "map (nfkd ucd_excerpt) (split ?x) = map (nfkd ucd_excerpt) (split ?y)"
    by (simp add: nfkd_def ucd_excerpt_def split.simps isspace_def)
  have s: "split ?z = [[69, 82, 65], [49]]"
    by (simp add: split.simps isspace_def)
  have f: "\<forall>w\<in>set (split ?z). nfkd ucd_excerpt w = w"
    unfolding s by (simp add: nfkd_def ucd_excerpt_def)
  from clean_feeder_name_nfkd_words [OF ucd_wf_excerpt, of ?x ?y] w
  have "clean_feeder_name ucd_excerpt ?x = clean_feeder_name ucd_excerpt ?y" by blast
  with x have y: "clean_feeder_name ucd_excerpt ?y = [70, 32, 101, 769, 32, 65]" by simp
  from clean_feeder_name_nfkd_words [OF ucd_wf_excerpt, of ?z "[]"] f
  have "clean_feeder_name ucd_excerpt ?z = join (split ?z)" by blast
  then have z: "clean_feeder_name ucd_excerpt ?z = [69, 82, 65, 32, 49]"
    unfolding s by simp
  from x y z show ?thesis by simp
qed

text \<open>
  Claim C5 as stated names canonical decomposition followed by recomposition. On the
  one-character string U+00E9 that normalizer returns U+00E9, while \<open>clean_feeder_name\<close>
  returns the two characters U+0065 U+0301.
\<close>

theorem clean_feeder_name_not_nfc_counterexample:
  "clean_feeder_name ucd_excerpt [233] = [101, 769]
   \<and> spec_normalize canonical_decomposition_excerpt (combining ucd_excerpt)
         primary_composite_excerpt [233] = [233]
   \<and> clean_feeder_name ucd_excerpt [233]
       \<noteq> spec_normalize canonical_decomposition_excerpt (combining ucd_excerpt)
           primary_composite_excerpt [233]"
  by (simp add: clean_feeder_name_def spec_normalize_def nfc_def strip_def nfkd_def ucd_excerpt_def
      replace_nbsp_def split.simps isspace_def canonical_decomposition_excerpt_def
      primary_composite_excerpt_def)


section \<open>Properties of the Query/Filter Layer\<close>

lemma mkey_compute_metrics:
  assumes "m \<in> set (compute_metrics df gcols)"
  shows "map fst (mkey m) = gcols" "VNull \<notin> snd ` set (mkey m)"
proof -
  from assms obtain k where k: "mkey m = zip gcols k" "length k = length gcols" "VNull \<notin> set k"
    by (rule compute_metrics_row)
  then show "map fst (mkey m) = gcols" by simp
  from k show "VNull \<notin> snd ` set (mkey m)"
    by (metis map_snd_zip set_map)
qed

lemma distinct_mkey_compute_metrics: "distinct (map mkey (compute_metrics df gcols))"
proof -
  let ?ks = "sort (remdups (map (group_key gcols)
     (filter (\<lambda>r. VNull \<notin> set (group_key gcols r)) df)))"
  have eq: "map mkey (compute_metrics df gcols) = map (zip gcols) ?ks"
    by (simp add: compute_metrics_def groupby_def Let_def comp_def group_metrics_def)
  have "inj_on (zip gcols) (set ?ks)"
  proof (rule inj_onI)
    fix a b assume "a \<in> set ?ks" "b \<in> set ?ks" and z: "zip gcols a = zip gcols b"
    then have "length a = length gcols" "length b = length gcols" by auto
    with z show "a = b" by (metis map_snd_zip)
  qed
  moreover have "distinct ?ks" by simp
  ultimately show ?thesis unfolding eq by (simp add: distinct_map)
qed

lemma row_val_not_null:
  assumes "m \<in> set (compute_metrics df gcols)" "c \<in> set gcols"
  shows "row_val c m \<noteq> VNull"
proof -
  from mkey_compute_metrics [OF assms(1)] have a: "map fst (mkey m) = gcols"
    and b: "VNull \<notin> snd ` set (mkey m)" by auto
  from a assms(2) obtain v where v: "map_of (mkey m) c = Some v"
    by (metis map_of_eq_None_iff not_Some_eq set_map)
  then have "(c, v) \<in> set (mkey m)" by (rule map_of_SomeD)
  with b have "v \<noteq> VNull" by force
  with v show ?thesis by (simp add: row_val_def)
qed


lemma map_of_values:
  "distinct (map fst xs) \<Longrightarrow>
   map (\<lambda>c. case map_of xs c of None \<Rightarrow> d | Some v \<Rightarrow> v) (map fst xs) = map snd xs"
proof (induction xs)
  case Nil
  then show ?case by simp
next
  case (Cons x xs)
  have same: "map_of (x # xs) c = map_of xs c" if "c \<in> set (map fst xs)" for c
    using that Cons.prems by (cases x) auto
  have "map (\<lambda>c. case map_of (x # xs) c of None \<Rightarrow> d | Some v \<Rightarrow> v) (map fst xs)
      = map (\<lambda>c. case map_of xs c of None \<Rightarrow> d | Some v \<Rightarrow> v) (map fst xs)"
    by (rule map_cong [OF refl]) (simp only: same)
  with Cons show ?case by (cases x) simp
qed

lemma sorted_le_last: "sorted ys \<Longrightarrow> y \<in> set ys \<Longrightarrow> y \<le> last ys"
  by (induction ys) auto

lemma mkey_from_row_vals:
  assumes "map fst (mkey m) = gcols" "distinct gcols"
  shows "mkey m = zip gcols (map (\<lambda>c. row_val c m) gcols)"
proof -
  have "map (\<lambda>c. row_val c m) gcols = map snd (mkey m)"
    unfolding row_val_def using map_of_values [of "mkey m" VNull] assms by simp
  then show ?thesis
    using assms(1) by (metis zip_map_fst_snd)
qed

lemma same_key_same_row:
  assumes "m \<in> set (compute_metrics df gcols)" "m' \<in> set (compute_metrics df gcols)"
    and "distinct gcols" and "\<forall>c\<in>set gcols. row_val c m = row_val c m'"
  shows "m = m'"
proof -
  have "mkey m = zip gcols (map (\<lambda>c. row_val c m) gcols)"
    "mkey m' = zip gcols (map (\<lambda>c. row_val c m') gcols)"
    using assms(1,2,3) mkey_compute_metrics(1) mkey_from_row_vals by blast+
  moreover have "map (\<lambda>c. row_val c m) gcols = map (\<lambda>c. row_val c m') gcols"
    using assms(4) by simp
  ultimately have "mkey m = mkey m'" by simp
  moreover have "inj_on mkey (set (compute_metrics df gcols))"
    using distinct_mkey_compute_metrics [of df gcols] by (simp add: distinct_map)
  ultimately show ?thesis using assms(1,2) by (auto dest: inj_onD)
qed

lemma select_dataset_cases:
  obtains gcols where "fst (select_dataset df_all period) = compute_metrics df_all gcols"
    "distinct gcols" "set gcols = {FeederName, Month, snd (select_dataset df_all period)}"
    "snd (select_dataset df_all period) = sub_period_field period"
  unfolding select_dataset_def sub_period_field_def daily_metrics_def weekly_metrics_def
    monthly_metrics_def
  by (cases "period = [68, 97, 105, 108, 121]"; cases "period = [87, 101, 101, 107, 108, 121]")
     fastforce+

lemma last_sort_key_max:
  assumes "xs \<noteq> []"
  shows "last (sort_key f xs) \<in> set xs" "\<forall>x\<in>set xs. f x \<le> f (last (sort_key f xs))"
proof -
  let ?ys = "sort_key f xs"
  have ne: "?ys \<noteq> []" using assms by (metis length_sort length_0_conv)
  then show "last ?ys \<in> set xs" by (metis last_in_set set_sort)
  have "sorted (map f ?ys)" by (rule sorted_sort_key)
  moreover have "last (map f ?ys) = f (last ?ys)" using ne by (simp add: last_map)
  ultimately show "\<forall>x\<in>set xs. f x \<le> f (last ?ys)"
    using sorted_le_last [of "map f ?ys"] by auto
qed

text \<open>
  Claim C6. For every granularity, period label and feeder name whose filtered metrics set
  is not empty, the Query/Filter Layer returns as the current snapshot the last row of the
  filtered set sorted ascending by the sub-period field of the granularity (date for daily,
  week label for weekly, period label for monthly), and the full filtered set for the
  trend display. That last row is a row of the filtered set, and every other row of the
  set has a strictly smaller sub-period value.
\<close>

theorem current_snapshot_is_latest:
  assumes "filtered_metrics df_all period selected_month selected_feeder \<noteq> []"
  shows "\<exists>latest.
           latest = last (sort_values (sub_period_field period)
                      (filtered_metrics df_all period selected_month selected_feeder))
         \<and> metrics_display df_all period selected_month selected_feeder = Indices latest
         \<and> plots df_all period selected_month selected_feeder
             = Charts (sub_period_field period)
                 (filtered_metrics df_all period selected_month selected_feeder)
         \<and> latest \<in> set (filtered_metrics df_all period selected_month selected_feeder)
         \<and> (\<forall>m\<in>set (filtered_metrics df_all period selected_month selected_feeder).
                m \<noteq> latest \<longrightarrow>
                row_val (sub_period_field period) m < row_val (sub_period_field period) latest)"
proof -
  let ?gf = "sub_period_field period"
  define fm where "fm = filtered_metrics df_all period selected_month selected_feeder"
  define latest where "latest = last (sort_values ?gf fm)"
  have ne: "fm \<noteq> []" using assms by (simp add: fm_def)
  obtain gcols where tbl: "fst (select_dataset df_all period) = compute_metrics df_all gcols"
    and dist: "distinct gcols"
    and cols: "set gcols = {FeederName, Month, snd (select_dataset df_all period)}"
    and gf: "snd (select_dataset df_all period) = ?gf"
    by (rule select_dataset_cases)
  have sub: "set fm \<subseteq> set (compute_metrics df_all gcols)"
    unfolding fm_def filtered_metrics_def tbl by auto
  have fixed: "row_val Month m = VStr selected_month" "row_val FeederName m = VStr selected_feeder"
    if "m \<in> set fm" for m
    using that unfolding fm_def filtered_metrics_def by auto
  have nn: "row_val ?gf m \<noteq> VNull" if "m \<in> set fm" for m
    using that sub cols gf row_val_not_null [of m df_all gcols ?gf] by auto
  then have sv: "sort_values ?gf fm = sort_key (row_val ?gf) fm"
    by (simp add: sort_values_def filter_id_conv filter_empty_conv)
  have disp: "metrics_display df_all period selected_month selected_feeder = Indices latest"
    using ne by (simp add: metrics_display_def Let_def gf fm_def latest_def)
  have plt: "plots df_all period selected_month selected_feeder = Charts ?gf fm"
    using ne by (simp add: plots_def Let_def gf fm_def)
  have mem: "latest \<in> set fm"
    unfolding latest_def sv using last_sort_key_max(1) [OF ne] .
  have le: "row_val ?gf m \<le> row_val ?gf latest" if "m \<in> set fm" for m
    unfolding latest_def sv using last_sort_key_max(2) [OF ne] that by blast
  have strict: "row_val ?gf m < row_val ?gf latest" if m: "m \<in> set fm" "m \<noteq> latest" for m
  proof -
    have "row_val ?gf m \<noteq> row_val ?gf latest"
    proof
      assume e: "row_val ?gf m = row_val ?gf latest"
      have "\<forall>c\<in>set gcols. row_val c m = row_val c latest"
        using e fixed [OF m(1)] fixed [OF mem] cols gf by auto
      then have "m = latest"
        using same_key_same_row [of m df_all gcols latest] sub m(1) mem dist by blast
      with m(2) show False by simp
    qed
    with le [OF m(1)] show ?thesis by simp
  qed
  from disp plt mem strict show ?thesis
    unfolding fm_def [symmetric] latest_def [symmetric] by blast
qed


lemmas eval_query =
  metrics_display_def plots_def filtered_metrics_def select_dataset_def daily_metrics_def
  weekly_metrics_def monthly_metrics_def sort_values_def row_val_def sub_period_field_def

theorem current_snapshot_is_latest_witness:
  "filtered_metrics example_df [68, 97, 105, 108, 121] [74, 97, 110]
       [70, 101, 101, 100, 101, 114, 32, 65]
     = [\<lparr> mkey = [(FeederName, VStr [70, 101, 101, 100, 101, 114, 32, 65]),
                  (Month, VStr [74, 97, 110]), (Date, VDate 19723)],
          SAIDI = 2, SAIFI = 1, CAIDI = 2 \<rparr>,
        \<lparr> mkey = [(FeederName, VStr [70, 101, 101, 100, 101, 114, 32, 65]),
                  (Month, VStr [74, 97, 110]), (Date, VDate 19724)],
          SAIDI = 1, SAIFI = 1, CAIDI = 1 \<rparr>]
   \<and> metrics_display example_df [68, 97, 105, 108, 121] [74, 97, 110]
       [70, 101, 101, 100, 101, 114, 32, 65]
     = Indices \<lparr> mkey = [(FeederName, VStr [70, 101, 101, 100, 101, 114, 32, 65]),
                  (Month, VStr [74, 97, 110]), (Date, VDate 19724)],
          SAIDI = 1, SAIFI = 1, CAIDI = 1 \<rparr>"
  using current_snapshot_is_latest [of example_df "[68, 97, 105, 108, 121]" "[74, 97, 110]"
      "[70, 101, 101, 100, 101, 114, 32, 65]"]
  by (simp add: eval_query eval_metrics example_df_def)

text \<open>
  Claim C7. For every granularity, period label and feeder name whose filtered metrics set
  is empty, the Query/Filter Layer signals the no-data condition, for the indices and for
  the trends, and returns no metrics row at all (so no row of made-up zeros).
\<close>

theorem no_data_is_signalled:
  assumes "filtered_metrics df_all period selected_month selected_feeder = []"
  shows "metrics_display df_all period selected_month selected_feeder = NoMetricsWarning
       \<and> plots df_all period selected_month selected_feeder = NoTrendInfo
       \<and> (\<forall>m. metrics_display df_all period selected_month selected_feeder \<noteq> Indices m)"
  using assms by (simp add: metrics_display_def plots_def)

theorem no_data_is_signalled_witness:
  "filtered_metrics example_df [87, 101, 101, 107, 108, 121] [74, 97, 110] [66] = []
   \<and> metrics_display example_df [87, 101, 101, 107, 108, 121] [74, 97, 110] [66] = NoMetricsWarning
   \<and> plots example_df [87, 101, 101, 107, 108, 121] [74, 97, 110] [66] = NoTrendInfo"
proof -
  have e: "filtered_metrics example_df [87, 101, 101, 107, 108, 121] [74, 97, 110] [66] = []"
    by (simp add: eval_query eval_metrics example_df_def)
  from e no_data_is_signalled [OF e] show ?thesis by simp
qed


section \<open>Properties of the Record Ingestor and the Dataset Merger\<close>

lemmas eval_ingest =
  ingest_def dropna_def complete_def converted_def hours_between_def to_numeric_def
  numeric_cell_def is_int64_def dataframe_column_def is_text_def is_integer_def as_double_def
  py_str_def example_lib_def clean_feeder_name_def strip_def nfkd_def ucd_excerpt_def
  replace_nbsp_def split.simps isspace_def all_data_def pd_concat_def build_df_all_def

lemma length_dataframe_column [simp]: "length (dataframe_column cells) = length cells"
  by (simp add: dataframe_column_def)

lemma length_converted: "length (converted lib ws) \<le> length (records ws)"
  by (simp add: converted_def Let_def)

lemma converted_no_records: "records ws = [] \<Longrightarrow> converted lib ws = []"
  by (simp add: converted_def Let_def dataframe_column_def)

text \<open>
  Claim C3. For every raw input table, the output of the Record Ingestor has at most as
  many rows as the input, and every retained row has a customer count, a duration and a
  fault category that are not missing. Rows failing this are dropped, never repaired: the
  output rows are converted rows as they are, and a converted row is in the output if and
  only if its three required fields are present.
\<close>

theorem ingest_drops_incomplete_rows:
  "length (ingest lib ws) \<le> length (records ws)
   \<and> (\<forall>r\<in>set (ingest lib ws).
         customer_no r \<noteq> None \<and> duration_hr r \<noteq> None \<and> fault_category r \<noteq> CNull)
   \<and> set (ingest lib ws) \<subseteq> set (converted lib ws)
   \<and> (\<forall>r\<in>set (converted lib ws). r \<in> set (ingest lib ws) \<longleftrightarrow> complete r)"
proof -
  have "length (ingest lib ws) \<le> length (converted lib ws)"
    by (simp add: ingest_def dropna_def)
  with length_converted [of lib ws] have "length (ingest lib ws) \<le> length (records ws)"
    by linarith
  moreover have "\<forall>r\<in>set (ingest lib ws).
      customer_no r \<noteq> None \<and> duration_hr r \<noteq> None \<and> fault_category r \<noteq> CNull"
    by (simp add: ingest_def dropna_def complete_def)
  moreover have "set (ingest lib ws) \<subseteq> set (converted lib ws)"
    by (auto simp: ingest_def dropna_def)
  moreover have "\<forall>r\<in>set (converted lib ws). r \<in> set (ingest lib ws) \<longleftrightarrow> complete r"
    by (simp add: ingest_def dropna_def)
  ultimately show ?thesis by blast
qed

theorem ingest_drops_incomplete_rows_witness:
  "ingest example_lib example_sheet = example_df
   \<and> length (records example_sheet) = 3 \<and> length (converted example_lib example_sheet) = 3"
  using ingest_drops_incomplete_rows [of example_lib example_sheet]
  by (simp add: eval_ingest example_sheet_def example_df_def)

text \<open>
  Claim C2 as stated asks for an error whenever no period produced a valid row. A single
  worksheet whose only record is dropped in cleaning gives an empty dataset and no error.
\<close>

theorem df_all_silent_on_unusable_period_counterexample:
  "records example_sheet_unusable \<noteq> []
   \<and> ingest example_lib example_sheet_unusable = []
   \<and> build_df_all example_lib [example_sheet_unusable] = Inr []"
  by (simp add: eval_ingest example_sheet_unusable_def)

text \<open>
  Claim C2, as amended. The Dataset Merger reports an error when no period has any raw
  row. When at least one period has raw rows it reports none and returns the cleaned
  tables of the periods, joined in their order, and that is an empty dataset when cleaning
  dropped every row.
\<close>

theorem df_all_error_iff_no_records:
  "((\<forall>ws\<in>set wss. records ws = []) \<longrightarrow> build_df_all lib wss = Inl NoObjectsToConcatenate)
   \<and> ((\<exists>ws\<in>set wss. records ws \<noteq> []) \<longrightarrow>
        build_df_all lib wss = Inr (concat (map (ingest lib) wss)))"
proof -
  have none: "records ws = [] \<Longrightarrow> ingest lib ws = []" for ws
    by (simp add: ingest_def dropna_def converted_no_records)
  have same: "concat (map (ingest lib) (filter (\<lambda>ws. records ws \<noteq> []) wss))
            = concat (map (ingest lib) wss)"
    by (induction wss) (simp_all add: none)
  have 1: "build_df_all lib wss = Inl NoObjectsToConcatenate" if "\<forall>ws\<in>set wss. records ws = []"
  proof -
    from that have "filter (\<lambda>ws. records ws \<noteq> []) wss = []"
      by (simp add: filter_empty_conv)
    then show ?thesis by (simp add: build_df_all_def all_data_def pd_concat_def)
  qed
  have 2: "build_df_all lib wss = Inr (concat (map (ingest lib) wss))"
    if "\<exists>ws\<in>set wss. records ws \<noteq> []"
  proof -
    from that have "filter (\<lambda>ws. records ws \<noteq> []) wss \<noteq> []"
      by (simp add: filter_empty_conv)
    then show ?thesis by (simp add: build_df_all_def all_data_def pd_concat_def same)
  qed
  from 1 2 show ?thesis by blast
qed

theorem df_all_error_iff_no_records_witness:
  "build_df_all example_lib [\<lparr> title = [70, 101, 98], records = [] \<rparr>] = Inl NoObjectsToConcatenate
   \<and> build_df_all example_lib [\<lparr> title = [70, 101, 98], records = [] \<rparr>, example_sheet,
         example_sheet_unusable] = Inr example_df"
proof -
  have i: "ingest example_lib example_sheet = example_df"
    by (simp add: eval_ingest example_sheet_def example_df_def)
  have u: "ingest example_lib example_sheet_unusable = []"
    by (simp add: eval_ingest example_sheet_unusable_def)
  have e: "ingest example_lib \<lparr> title = [70, 101, 98], records = [] \<rparr> = []"
    by (simp add: ingest_def dropna_def converted_no_records)
  have r: "records example_sheet \<noteq> []" by (simp add: example_sheet_def)
  from df_all_error_iff_no_records [of "[\<lparr> title = [70, 101, 98], records = [] \<rparr>]" example_lib]
  have a: "build_df_all example_lib [\<lparr> title = [70, 101, 98], records = [] \<rparr>] = Inl NoObjectsToConcatenate"
    by simp
  from df_all_error_iff_no_records [of "[\<lparr> title = [70, 101, 98], records = [] \<rparr>, example_sheet,
         example_sheet_unusable]" example_lib] r
  have b: "build_df_all example_lib [\<lparr> title = [70, 101, 98], records = [] \<rparr>, example_sheet,
         example_sheet_unusable] = Inr example_df"
    by (simp add: i u e)
  from a b show ?thesis by simp
qed


end
